theory Spec2Isabelle
  imports Complex_Main "HOL-Library.Word" "HOL-Library.Multiset"
begin

section \<open>Data model of \<open>inference_scheduler.cpp\<close>\<close>

text \<open>
  The C++ type \<open>int\<close> is a 32-bit two's complement integer: a \<open>32 word\<close>, read with
  \<open>sint\<close> and compared with the signed order. The C++ type \<open>double\<close> is idealised as
  \<open>real\<close>: clock readings, latencies and the cost in milliseconds are computed exactly.
  The one place where the rounding of \<open>double\<close> reaches an integer the program uses, the
  argument of \<open>sleep_for\<close>, is computed in the arithmetic of the machine.
\<close>

type_synonym cint = "32 word"

text \<open>\<open>struct InferenceRequest\<close>; the field \<open>id\<close> is called \<open>req_id\<close> here.\<close>

record InferenceRequest =
  req_id :: cint
  priority :: cint
  token_count :: cint
  enqueue_time_ms :: real

text \<open>\<open>InferenceRequest::operator<\<close>: compares the priorities, nothing else.\<close>

definition operator_less :: "InferenceRequest \<Rightarrow> InferenceRequest \<Rightarrow> bool" where
  "operator_less a b = (priority a <s priority b)"

text \<open>The priority of a request as a signed integer.\<close>

definition prio :: "InferenceRequest \<Rightarrow> int" where
  "prio r = sint (priority r)"

subsection \<open>The priority queue\<close>

text \<open>
  \<open>std::priority_queue<InferenceRequest>\<close> keeps its elements in a \<open>std::vector\<close>
  arranged as a binary max-heap under \<open>operator<\<close>: \<open>push\<close> is \<open>push_back\<close> followed by
  \<open>std::push_heap\<close>, \<open>top\<close> is \<open>front\<close>, and \<open>pop\<close> is \<open>std::pop_heap\<close> followed by
  \<open>pop_back\<close>. The vector is a list; \<open>is_heap\<close> is the library's heap property: no
  element is less than its child, the parent of index \<open>i\<close> being \<open>(i - 1) div 2\<close> and
  its children \<open>2 * i + 1\<close> and \<open>2 * i + 2\<close>. The standard fixes what \<open>push_heap\<close> and
  \<open>pop_heap\<close> achieve, not which of several equal elements ends where; the sifts
  below are the usual ones, and nothing proved of the scheduler depends on how they
  place requests of equal priority.
\<close>

definition swap :: "'a list \<Rightarrow> nat \<Rightarrow> nat \<Rightarrow> 'a list" where
  "swap c i j = c[i := c ! j, j := c ! i]"

definition parent :: "nat \<Rightarrow> nat" where
  "parent i = (i - 1) div 2"

definition is_heap :: "InferenceRequest list \<Rightarrow> bool" where
  "is_heap c = (\<forall>i < length c. 0 < i \<longrightarrow> \<not> operator_less (c ! parent i) (c ! i))"

text \<open>\<open>std::push_heap\<close>: the element at index \<open>i\<close> rises while its parent is less.\<close>

function sift_up :: "InferenceRequest list \<Rightarrow> nat \<Rightarrow> InferenceRequest list" where
  "sift_up c i =
     (if i = 0 then c
      else if operator_less (c ! parent i) (c ! i)
           then sift_up (swap c (parent i) i) (parent i)
           else c)"
  by pat_completeness auto
termination
  by (relation "measure snd") (auto simp: parent_def)

definition push_heap :: "InferenceRequest list \<Rightarrow> InferenceRequest list" where
  "push_heap c = (if c = [] then c else sift_up c (length c - 1))"

definition pq_push :: "InferenceRequest list \<Rightarrow> InferenceRequest \<Rightarrow> InferenceRequest list" where
  "pq_push c x = push_heap (c @ [x])"

text \<open>
  The sift of \<open>std::pop_heap\<close>: the element at index \<open>i\<close> sinks below its greater child
  while it is less than that child.
\<close>

definition greater_child :: "InferenceRequest list \<Rightarrow> nat \<Rightarrow> nat" where
  "greater_child c i =
     (if 2 * i + 2 < length c \<and> operator_less (c ! (2 * i + 1)) (c ! (2 * i + 2))
      then 2 * i + 2 else 2 * i + 1)"

function sift_down :: "InferenceRequest list \<Rightarrow> nat \<Rightarrow> InferenceRequest list" where
  "sift_down c i =
     (if 2 * i + 1 < length c \<and> operator_less (c ! i) (c ! greater_child c i)
      then sift_down (swap c i (greater_child c i)) (greater_child c i)
      else c)"
  by pat_completeness auto
termination
  by (relation "measure (\<lambda>(c, i). length c - i)")
     (auto simp: swap_def greater_child_def)

text \<open>
  The heap property with one index excepted, as it holds while an element rises
  (\<open>heap_but_up\<close>: the element at \<open>i\<close> may exceed its parent) or sinks
  (\<open>heap_but_down\<close>: the element at \<open>i\<close> may be below its children); in both the children
  of \<open>i\<close> are already bounded by the parent of \<open>i\<close>.
\<close>

definition heap_but_up :: "InferenceRequest list \<Rightarrow> nat \<Rightarrow> bool" where
  "heap_but_up c i =
     ((\<forall>j < length c. 0 < j \<longrightarrow> j \<noteq> i \<longrightarrow> prio (c ! j) \<le> prio (c ! parent j))
      \<and> (\<forall>j < length c. 0 < j \<longrightarrow> 0 < i \<longrightarrow> parent j = i
            \<longrightarrow> prio (c ! j) \<le> prio (c ! parent i)))"

definition heap_but_down :: "InferenceRequest list \<Rightarrow> nat \<Rightarrow> bool" where
  "heap_but_down c i =
     ((\<forall>j < length c. 0 < j \<longrightarrow> parent j \<noteq> i \<longrightarrow> prio (c ! j) \<le> prio (c ! parent j))
      \<and> (\<forall>j < length c. 0 < j \<longrightarrow> 0 < i \<longrightarrow> parent j = i
            \<longrightarrow> prio (c ! j) \<le> prio (c ! parent i)))"

text \<open>
  \<open>priority_queue::top\<close> reads the front of the vector and \<open>priority_queue::pop\<close> removes
  it: the last element takes the place of the top and sinks, and the vector shrinks by
  one. Both are undefined on an empty queue in C++; the scheduler calls them only after
  \<open>!queue_.empty()\<close>, and the model returns \<open>None\<close> there.
\<close>

definition pq_top :: "InferenceRequest list \<Rightarrow> InferenceRequest option" where
  "pq_top c = (case c of [] \<Rightarrow> None | x # _ \<Rightarrow> Some x)"

definition pq_pop :: "InferenceRequest list \<Rightarrow> InferenceRequest list option" where
  "pq_pop c =
     (if c = [] then None
      else Some (sift_down (butlast (swap c 0 (length c - 1))) 0))"

subsection \<open>The scheduler object\<close>

text \<open>
  The data members of \<open>class InferenceScheduler\<close> that hold values, named as in the
  source without the trailing underscore. \<open>queue\<close> is the vector of the priority queue,
  \<open>latencies\<close> the deque of samples in the order of \<open>push_back\<close>.
\<close>

record InferenceScheduler =
  num_workers :: cint
  batch_size :: cint
  shutdown :: bool
  total_processed :: cint
  start_time :: real
  queue :: "InferenceRequest list"
  latencies :: "real list"

text \<open>
  The only error the specification names. The constructor of the source has an
  initialiser list and an empty body: it has no branch that raises.
\<close>

datatype error = InvalidConfiguration

definition new_scheduler :: "cint \<Rightarrow> cint \<Rightarrow> InferenceScheduler" where
  "new_scheduler nw bs =
     \<lparr> num_workers = nw, batch_size = bs, shutdown = False,
       total_processed = 0, start_time = 0, queue = [], latencies = [] \<rparr>"

definition InferenceScheduler_ctor :: "cint \<Rightarrow> cint \<Rightarrow> error + InferenceScheduler" where
  "InferenceScheduler_ctor nw bs = Inr (new_scheduler nw bs)"

text \<open>
  \<open>enqueue\<close>, as a function of the clock reading \<open>now\<close> that \<open>now_ms()\<close> returns: the
  argument is stamped and pushed. The method returns \<open>void\<close>.
\<close>

definition enqueue :: "real \<Rightarrow> InferenceRequest \<Rightarrow> InferenceScheduler \<Rightarrow> InferenceScheduler" where
  "enqueue now req s = s\<lparr> queue := pq_push (queue s) (req\<lparr> enqueue_time_ms := now \<rparr>) \<rparr>"

subsection \<open>The body of \<open>worker_loop\<close>\<close>

text \<open>
  The inner loop that pulls up to \<open>batch_size_\<close> requests. \<open>(int)batch.size()\<close> is the
  length converted to 32 bits.
\<close>

declare sift_up.simps [simp del] sift_down.simps [simp del]

lemma length_swap [simp]: "length (swap c i j) = length c"
  by (simp add: swap_def)

lemma length_sift_down [simp]: "length (sift_down c i) = length c"
  by (induction c i rule: sift_down.induct) (subst sift_down.simps, simp)

lemma length_pq_pop: "pq_pop q = Some q' \<Longrightarrow> length q' < length q"
  by (auto simp: pq_pop_def split: if_splits)

function drain_loop ::
  "cint \<Rightarrow> InferenceRequest list \<Rightarrow> InferenceRequest list
     \<Rightarrow> InferenceRequest list \<times> InferenceRequest list" where
  "drain_loop bs batch q =
     (if q \<noteq> [] \<and> (word_of_nat (length batch) :: cint) <s bs
      then (case (pq_top q, pq_pop q) of
              (Some x, Some q') \<Rightarrow> drain_loop bs (batch @ [x]) q'
            | _ \<Rightarrow> (batch, q))
      else (batch, q))"
  by pat_completeness auto
termination
  by (relation "measure (\<lambda>(bs, batch, q). length q)") (auto dest: length_pq_pop [OF sym])

declare drain_loop.simps [simp del]

definition drain_batch :: "cint \<Rightarrow> InferenceRequest list \<Rightarrow> InferenceRequest list \<times> InferenceRequest list" where
  "drain_batch bs q = drain_loop bs [] q"

text \<open>
  The simulated inference: \<open>total_tokens\<close> is the \<open>int\<close> accumulator of the loop over
  the batch (32-bit addition: overflow of \<open>int\<close> is undefined in C++ and wraps around
  on the usual targets), and \<open>sim_ms\<close> the product with \<open>0.02\<close>, computed exactly.
\<close>

definition total_tokens :: "InferenceRequest list \<Rightarrow> cint" where
  "total_tokens batch = fold (\<lambda>r t. t + token_count r) batch 0"

definition sim_ms :: "InferenceRequest list \<Rightarrow> real" where
  "sim_ms batch = real_of_int (sint (total_tokens batch)) * 0.02"

text \<open>
  The argument of \<open>sleep_for\<close> is an integer, \<open>static_cast<int>(sim_ms * 1000)\<close>, and in
  it the rounding of \<open>double\<close> shows: 803 tokens give 16059 microseconds, not 16060. For
  this argument the two products are computed as the machine computes them. A finite
  \<open>double\<close> is a number \<open>m * 2 ^ e\<close> whose mantissa \<open>m\<close> has at most 53 bits, kept here as
  the pair \<open>(m, e)\<close> with value \<open>dbl_val\<close>. \<open>round_double\<close> takes any such pair to the
  nearest one with a mantissa of 53 bits, a tie going to the even mantissa, which is
  the rounding of IEEE 754 that C++ programs run under; the product of two doubles is
  the exact product, rounded. The exponent is not bounded in the model: the products
  of this program are 0 or lie between \<open>2 ^ - 6\<close> and \<open>2 ^ 36\<close> in absolute value, far
  inside the range of \<open>double\<close>. An \<open>int\<close> converts to a \<open>double\<close> exactly, and the
  literal \<open>0.02\<close> is the double nearest to 2/100, \<open>0x1.47ae147ae147bp-6\<close>: the mantissa
  5764607523034235 with the exponent -58.
\<close>

type_synonym dbl = "int \<times> int"

definition dbl_val :: "dbl \<Rightarrow> real" where
  "dbl_val d = real_of_int (fst d) * 2 powi snd d"

fun bit_len :: "nat \<Rightarrow> nat" where
  "bit_len n = (if n = 0 then 0 else Suc (bit_len (n div 2)))"

declare bit_len.simps [simp del]

definition round_half_even :: "int \<Rightarrow> nat \<Rightarrow> int" where
  "round_half_even a k =
     (if 2 * (a mod 2 ^ k) < 2 ^ k then a div 2 ^ k
      else if 2 ^ k < 2 * (a mod 2 ^ k) then a div 2 ^ k + 1
      else if even (a div 2 ^ k) then a div 2 ^ k
      else a div 2 ^ k + 1)"

definition round_double :: "dbl \<Rightarrow> dbl" where
  "round_double d =
     (sgn (fst d) * round_half_even \<bar>fst d\<bar> (bit_len (nat \<bar>fst d\<bar>) - 53),
      snd d + int (bit_len (nat \<bar>fst d\<bar>) - 53))"

definition dbl_mult :: "dbl \<Rightarrow> dbl \<Rightarrow> dbl" where
  "dbl_mult x y = round_double (fst x * fst y, snd x + snd y)"

definition dbl_of_int :: "int \<Rightarrow> dbl" where
  "dbl_of_int n = (n, 0)"

definition dbl_0_02 :: dbl where
  "dbl_0_02 = (5764607523034235, - 58)"

text \<open>
  \<open>static_cast<int>\<close> drops the fraction (\<open>trunc_int\<close>). C++ leaves the conversion
  undefined when the result is outside the range of \<open>int\<close>; the conversion instruction
  of x86-64 that compilers emit for the cast gives \<open>INT_MIN\<close> there, and the model
  follows it. \<open>sleep_for\<close> returns at once when its argument is not positive.
\<close>

definition trunc_int :: "dbl \<Rightarrow> int" where
  "trunc_int d =
     (if 0 \<le> snd d then fst d * 2 ^ nat (snd d)
      else sgn (fst d) * (\<bar>fst d\<bar> div 2 ^ nat (- snd d)))"

definition static_cast_int :: "dbl \<Rightarrow> int" where
  "static_cast_int d =
     (if - (2 ^ 31) \<le> trunc_int d \<and> trunc_int d < 2 ^ 31 then trunc_int d else - (2 ^ 31))"

text \<open>The product of line 140 as a \<open>double\<close>, and the argument of \<open>sleep_for\<close>.\<close>

definition sim_ms_double :: "InferenceRequest list \<Rightarrow> dbl" where
  "sim_ms_double batch = dbl_mult (dbl_of_int (sint (total_tokens batch))) dbl_0_02"

definition sleep_micros :: "InferenceRequest list \<Rightarrow> int" where
  "sleep_micros batch = static_cast_int (dbl_mult (sim_ms_double batch) (dbl_of_int 1000))"

text \<open>
  The batch the specification compares with: every size that is zero or negative
  replaced by 0. The source has no such function.
\<close>

definition size_clamped :: "InferenceRequest \<Rightarrow> InferenceRequest" where
  "size_clamped r = (if token_count r \<le>s 0 then r\<lparr> token_count := 0 \<rparr> else r)"

text \<open>The loop that records one latency sample per request of the batch.\<close>

definition record_latencies :: "real \<Rightarrow> InferenceRequest list \<Rightarrow> real list \<Rightarrow> real list" where
  "record_latencies done_time batch lat = lat @ map (\<lambda>r. done_time - enqueue_time_ms r) batch"

subsection \<open>\<open>print_stats\<close>\<close>

text \<open>
  The lambda \<open>pct\<close> over the sorted samples. \<open>static_cast<size_t>\<close> of the non-negative
  product is its floor; \<open>print_stats\<close> calls \<open>pct\<close> with 0.50, 0.95 and 0.99 only.
\<close>

definition pct :: "real list \<Rightarrow> real \<Rightarrow> real" where
  "pct sorted_lat p =
     (if sorted_lat = [] then 0
      else sorted_lat ! min (nat \<lfloor>p * real (length sorted_lat)\<rfloor>) (length sorted_lat - 1))"

text \<open>
  Division of doubles: by zero it gives an infinity or a NaN, never a number; the model
  returns \<open>None\<close> there, whereas \<open>x / 0 = 0\<close> in HOL.
\<close>

definition fdiv :: "real \<Rightarrow> real \<Rightarrow> real option" where
  "fdiv x y = (if y = 0 then None else Some (x / y))"

text \<open>The numbers \<open>print_stats\<close> writes, in the order of the report.\<close>

record Stats =
  stat_workers :: cint
  stat_batch_size :: cint
  stat_processed :: cint
  stat_elapsed :: real
  stat_throughput :: "real option"
  stat_p50 :: real
  stat_p95 :: real
  stat_p99 :: real

definition print_stats :: "real \<Rightarrow> InferenceScheduler \<Rightarrow> Stats" where
  "print_stats now s =
     (let elapsed = now - start_time s;
          throughput = (if 0 <s total_processed s
                        then fdiv (real_of_int (sint (total_processed s))) (elapsed / 1000)
                        else Some 0);
          sorted_lat = sort (latencies s)
      in \<lparr> stat_workers = num_workers s, stat_batch_size = batch_size s,
           stat_processed = total_processed s, stat_elapsed = elapsed,
           stat_throughput = throughput,
           stat_p50 = pct sorted_lat 0.50, stat_p95 = pct sorted_lat 0.95,
           stat_p99 = pct sorted_lat 0.99 \<rparr>)"

section \<open>The threads\<close>

text \<open>
  The scheduler runs one caller thread (\<open>main\<close>: \<open>start\<close>, the calls of \<open>enqueue\<close>, then
  \<open>shutdown\<close>) and the worker threads \<open>start\<close> creates. The program is free of data
  races (\<open>queue_\<close> is accessed under \<open>mu_\<close>, \<open>latencies_\<close> under \<open>lat_mu_\<close>, the two
  other shared members are atomics), so its runs are the interleavings of the steps of
  its threads. A thread is a program counter with the local variables live at that
  point; a mutex is the thread that owns it, if any. The condition variable \<open>cv_\<close> is
  the set of workers at \<open>W_Waiting\<close>.
\<close>

datatype thread = MainThread | WorkerThread nat

text \<open>
  The points of \<open>worker_loop\<close>, in the order of the source. \<open>W_Entry\<close>: the thread
  starts, before \<open>batch.reserve(batch_size_)\<close>. \<open>W_Top\<close>: line 122, before the
  \<open>unique_lock\<close>. \<open>W_Locked\<close>: \<open>mu_\<close> held, \<open>cv_.wait\<close> tests its predicate.
  \<open>W_Waiting\<close>: blocked inside \<open>cv_.wait\<close>, \<open>mu_\<close> released. \<open>W_Woken\<close>: unblocked,
  re-acquiring \<open>mu_\<close>. \<open>W_Check\<close>: line 126. \<open>W_Break\<close>: after \<open>break\<close>, before the lock goes
  out of scope. \<open>W_Unlock\<close>: line 133, the batch pulled. \<open>W_Batch\<close>: line 135.
  \<open>W_Sleep\<close>: inside \<open>sleep_for\<close>, with its argument in microseconds. \<open>W_LatLock\<close>: line
  147, \<open>done_time\<close> read. \<open>W_Record\<close>: \<open>lat_mu_\<close> held. \<open>W_LatUnlock\<close>: line 151.
  \<open>W_Count\<close>: line 153. \<open>W_Done\<close>: the thread has returned.
\<close>

datatype worker_pc =
    W_Entry
  | W_Top
  | W_Locked
  | W_Waiting
  | W_Woken
  | W_Check
  | W_Break
  | W_Unlock "InferenceRequest list"
  | W_Batch "InferenceRequest list"
  | W_Sleep "InferenceRequest list" int
  | W_LatLock "InferenceRequest list" real
  | W_Record "InferenceRequest list" real
  | W_LatUnlock "InferenceRequest list"
  | W_Count "InferenceRequest list"
  | W_Done

text \<open>
  The points of the caller. \<open>M_Begin\<close>: entering \<open>start\<close>. \<open>M_Spawn i\<close>: the loop of
  \<open>start\<close> at index \<open>i\<close>. \<open>M_Idle\<close>: between two calls. \<open>M_EnqLock\<close> to \<open>M_EnqNotify\<close>:
  \<open>enqueue\<close> with its argument and the clock reading of line 66, before the
  \<open>lock_guard\<close>, before \<open>push\<close>, before the end of the scope, and before \<open>notify_one\<close>.
  \<open>M_ShutLock\<close> to \<open>M_ShutNotify\<close>: the same points of \<open>shutdown\<close>. \<open>M_Join\<close>: the loop
  of \<open>join\<close>. \<open>M_Done\<close>: \<open>shutdown\<close> has returned.
\<close>

datatype main_pc =
    M_Begin
  | M_Spawn nat
  | M_Idle
  | M_EnqLock InferenceRequest real
  | M_EnqPush InferenceRequest real
  | M_EnqUnlock
  | M_EnqNotify
  | M_ShutLock
  | M_ShutSet
  | M_ShutUnlock
  | M_ShutNotify
  | M_Join
  | M_Done

text \<open>
  The state of a run: the scheduler object, the owners of its two mutexes, the worker
  threads (\<open>workers_\<close>), the caller with the requests it has still to submit, the
  steady clock, and whether the process has been ended by \<open>std::terminate\<close>.
  \<open>submitted\<close> and \<open>recorded\<close> are history variables, not data of the program: the
  requests pushed so far, and the requests whose latency sample has been appended so
  far.
\<close>

record system =
  sched :: InferenceScheduler
  mu :: "thread option"
  lat_mu :: "thread option"
  workers :: "worker_pc list"
  main :: main_pc
  to_submit :: "InferenceRequest list"
  clock :: real
  aborted :: bool
  submitted :: "InferenceRequest list"
  recorded :: "InferenceRequest list"

definition init_system :: "cint \<Rightarrow> cint \<Rightarrow> InferenceRequest list \<Rightarrow> system" where
  "init_system nw bs reqs =
     \<lparr> sched = new_scheduler nw bs, mu = None, lat_mu = None, workers = [],
       main = M_Begin, to_submit = reqs, clock = 0, aborted = False, submitted = [],
       recorded = [] \<rparr>"

definition set_worker :: "nat \<Rightarrow> worker_pc \<Rightarrow> system \<Rightarrow> system" where
  "set_worker i w s = s\<lparr> workers := (workers s)[i := w] \<rparr>"

text \<open>
  One step of worker \<open>i\<close>; \<open>None\<close> when the worker cannot move: it waits for a mutex
  another thread owns, it is blocked in \<open>cv_.wait\<close>, or it has returned. The inner loop
  runs under \<open>mu_\<close> and is one step. At its entry the worker reserves room for
  \<open>batch_size_\<close> requests: a negative \<open>int\<close> converts to a \<open>size_t\<close> above
  \<open>max_size()\<close>, \<open>reserve\<close> throws \<open>std::length_error\<close>, and the exception leaving the
  thread ends the process. That an allocation fails for want of memory is an event of
  its own, \<open>Exhausted\<close> below.
\<close>

definition worker_step :: "nat \<Rightarrow> system \<Rightarrow> system option" where
  "worker_step i s =
     (if length (workers s) \<le> i then None
      else case workers s ! i of
        W_Entry \<Rightarrow>
          if batch_size (sched s) <s 0 then Some (s\<lparr> aborted := True \<rparr>)
          else Some (set_worker i W_Top s)
      | W_Top \<Rightarrow>
          if mu s = None
          then Some (set_worker i W_Locked (s\<lparr> mu := Some (WorkerThread i) \<rparr>))
          else None
      | W_Locked \<Rightarrow>
          if queue (sched s) \<noteq> [] \<or> shutdown (sched s)
          then Some (set_worker i W_Check s)
          else Some (set_worker i W_Waiting (s\<lparr> mu := None \<rparr>))
      | W_Waiting \<Rightarrow> None
      | W_Woken \<Rightarrow>
          if mu s = None
          then Some (set_worker i W_Locked (s\<lparr> mu := Some (WorkerThread i) \<rparr>))
          else None
      | W_Check \<Rightarrow>
          if shutdown (sched s) \<and> queue (sched s) = []
          then Some (set_worker i W_Break s)
          else Some (set_worker i
                 (W_Unlock (fst (drain_batch (batch_size (sched s)) (queue (sched s)))))
                 (s\<lparr> sched := (sched s)
                      \<lparr> queue := snd (drain_batch (batch_size (sched s)) (queue (sched s))) \<rparr> \<rparr>))
      | W_Break \<Rightarrow> Some (set_worker i W_Done (s\<lparr> mu := None \<rparr>))
      | W_Unlock batch \<Rightarrow> Some (set_worker i (W_Batch batch) (s\<lparr> mu := None \<rparr>))
      | W_Batch batch \<Rightarrow>
          if batch = [] then Some (set_worker i W_Top s)
          else Some (set_worker i (W_Sleep batch (sleep_micros batch)) s)
      | W_Sleep batch us \<Rightarrow> Some (set_worker i (W_LatLock batch (clock s)) s)
      | W_LatLock batch done_time \<Rightarrow>
          if lat_mu s = None
          then Some (set_worker i (W_Record batch done_time)
                 (s\<lparr> lat_mu := Some (WorkerThread i) \<rparr>))
          else None
      | W_Record batch done_time \<Rightarrow>
          Some (set_worker i (W_LatUnlock batch)
            (s\<lparr> sched := (sched s)
                 \<lparr> latencies := record_latencies done_time batch (latencies (sched s)) \<rparr>,
               recorded := recorded s @ batch \<rparr>))
      | W_LatUnlock batch \<Rightarrow> Some (set_worker i (W_Count batch) (s\<lparr> lat_mu := None \<rparr>))
      | W_Count batch \<Rightarrow>
          Some (set_worker i W_Top
            (s\<lparr> sched := (sched s)
                 \<lparr> total_processed := total_processed (sched s) + word_of_nat (length batch) \<rparr> \<rparr>))
      | W_Done \<Rightarrow> None)"

text \<open>
  One step of the caller. The number \<open>k\<close> matters at \<open>notify_one\<close> only: it names the
  waiting worker that is unblocked, when there is one. \<open>join\<close> returns once every worker
  has returned.
\<close>

definition main_step :: "nat \<Rightarrow> system \<Rightarrow> system option" where
  "main_step k s =
     (case main s of
        M_Begin \<Rightarrow>
          Some (s\<lparr> sched := (sched s)\<lparr> start_time := clock s \<rparr>, main := M_Spawn 0 \<rparr>)
      | M_Spawn i \<Rightarrow>
          if int i < sint (num_workers (sched s))
          then Some (s\<lparr> workers := workers s @ [W_Entry], main := M_Spawn (Suc i) \<rparr>)
          else Some (s\<lparr> main := M_Idle \<rparr>)
      | M_Idle \<Rightarrow>
          (case to_submit s of
             req # rest \<Rightarrow> Some (s\<lparr> to_submit := rest, main := M_EnqLock req (clock s) \<rparr>)
           | [] \<Rightarrow> Some (s\<lparr> main := M_ShutLock \<rparr>))
      | M_EnqLock req now \<Rightarrow>
          if mu s = None
          then Some (s\<lparr> mu := Some MainThread, main := M_EnqPush req now \<rparr>)
          else None
      | M_EnqPush req now \<Rightarrow>
          Some (s\<lparr> sched := enqueue now req (sched s),
                  submitted := submitted s @ [req\<lparr> enqueue_time_ms := now \<rparr>],
                  main := M_EnqUnlock \<rparr>)
      | M_EnqUnlock \<Rightarrow> Some (s\<lparr> mu := None, main := M_EnqNotify \<rparr>)
      | M_EnqNotify \<Rightarrow>
          if W_Waiting \<notin> set (workers s) then Some (s\<lparr> main := M_Idle \<rparr>)
          else if k < length (workers s) \<and> workers s ! k = W_Waiting
          then Some (s\<lparr> workers := (workers s)[k := W_Woken], main := M_Idle \<rparr>)
          else None
      | M_ShutLock \<Rightarrow>
          if mu s = None
          then Some (s\<lparr> mu := Some MainThread, main := M_ShutSet \<rparr>)
          else None
      | M_ShutSet \<Rightarrow>
          Some (s\<lparr> sched := (sched s)\<lparr> shutdown := True \<rparr>, main := M_ShutUnlock \<rparr>)
      | M_ShutUnlock \<Rightarrow> Some (s\<lparr> mu := None, main := M_ShutNotify \<rparr>)
      | M_ShutNotify \<Rightarrow>
          Some (s\<lparr> workers := map (\<lambda>w. if w = W_Waiting then W_Woken else w) (workers s),
                  main := M_Join \<rparr>)
      | M_Join \<Rightarrow>
          if list_all (\<lambda>w. w = W_Done) (workers s) then Some (s\<lparr> main := M_Done \<rparr>)
          else None
      | M_Done \<Rightarrow> None)"

text \<open>
  The points at which a thread asks the library for memory or for a thread:
  \<open>emplace_back\<close> in \<open>start\<close> (room in \<open>workers_\<close>, and the thread itself), \<open>queue_.push\<close>,
  \<open>batch.reserve\<close> with a positive argument, and \<open>latencies_.push_back\<close>. Whether the
  request is met is not up to the program. When it is not, the library throws
  (\<open>std::bad_alloc\<close>, \<open>std::system_error\<close>); the source catches nothing, so the process is
  ended.
\<close>

fun worker_allocates :: "cint \<Rightarrow> worker_pc \<Rightarrow> bool" where
  "worker_allocates bs W_Entry = (0 <s bs)"
| "worker_allocates bs (W_Record b t) = (b \<noteq> [])"
| "worker_allocates bs _ = False"

fun main_allocates :: "cint \<Rightarrow> main_pc \<Rightarrow> bool" where
  "main_allocates nw (M_Spawn n) = (int n < sint nw)"
| "main_allocates nw (M_EnqPush r t) = True"
| "main_allocates nw _ = False"

definition allocating :: "thread \<Rightarrow> system \<Rightarrow> bool" where
  "allocating t s =
     (case t of
        MainThread \<Rightarrow> main_allocates (num_workers (sched s)) (main s)
      | WorkerThread i \<Rightarrow>
          i < length (workers s) \<and> worker_allocates (batch_size (sched s)) (workers s ! i))"

text \<open>
  The events of a run: a step of the caller, a step of a worker, a spurious wake-up
  of a waiting worker (the C++ standard allows them), the passing of time, and the
  failure of the allocation a thread is about to make. Nothing happens in a process
  that has been ended.
\<close>

datatype event = Main nat | Worker nat | Spurious nat | Tick real | Exhausted thread

definition step :: "event \<Rightarrow> system \<Rightarrow> system option" where
  "step e s =
     (if aborted s then None
      else case e of
        Main k \<Rightarrow> main_step k s
      | Worker i \<Rightarrow> worker_step i s
      | Spurious i \<Rightarrow>
          if i < length (workers s) \<and> workers s ! i = W_Waiting
          then Some (set_worker i W_Woken s)
          else None
      | Tick d \<Rightarrow> if 0 \<le> d then Some (s\<lparr> clock := clock s + d \<rparr>) else None
      | Exhausted t \<Rightarrow> if allocating t s then Some (s\<lparr> aborted := True \<rparr>) else None)"

text \<open>A run: the events taken in turn, \<open>None\<close> if one of them is not possible.\<close>

fun run :: "event list \<Rightarrow> system \<Rightarrow> system option" where
  "run [] s = Some s"
| "run (e # es) s = (case step e s of None \<Rightarrow> None | Some s' \<Rightarrow> run es s')"

subsection \<open>What holds in every state of a run\<close>

text \<open>
  The batch a worker has pulled and not yet recorded (\<open>in_flight\<close>), and the number of
  requests it has recorded and not yet added to \<open>total_processed_\<close> (\<open>uncounted\<close>).
\<close>

fun in_flight :: "worker_pc \<Rightarrow> InferenceRequest list" where
  "in_flight (W_Unlock b) = b"
| "in_flight (W_Batch b) = b"
| "in_flight (W_Sleep b us) = b"
| "in_flight (W_LatLock b t) = b"
| "in_flight (W_Record b t) = b"
| "in_flight _ = []"

fun uncounted :: "worker_pc \<Rightarrow> nat" where
  "uncounted (W_LatUnlock b) = length b"
| "uncounted (W_Count b) = length b"
| "uncounted _ = 0"

text \<open>
  The points at which a thread is inside a critical section: between the construction
  and the destruction of its \<open>unique_lock\<close> or \<open>lock_guard\<close>. \<open>lock_ok\<close> says that the
  owner recorded for a mutex is the one worker inside its critical section, if any.
\<close>

fun holds_mu :: "worker_pc \<Rightarrow> bool" where
  "holds_mu W_Locked = True"
| "holds_mu W_Check = True"
| "holds_mu W_Break = True"
| "holds_mu (W_Unlock b) = True"
| "holds_mu _ = False"

fun holds_lat_mu :: "worker_pc \<Rightarrow> bool" where
  "holds_lat_mu (W_Record b t) = True"
| "holds_lat_mu (W_LatUnlock b) = True"
| "holds_lat_mu _ = False"

fun main_holds_mu :: "main_pc \<Rightarrow> bool" where
  "main_holds_mu (M_EnqPush r t) = True"
| "main_holds_mu M_EnqUnlock = True"
| "main_holds_mu M_ShutSet = True"
| "main_holds_mu M_ShutUnlock = True"
| "main_holds_mu _ = False"

definition lock_ok :: "(worker_pc \<Rightarrow> bool) \<Rightarrow> thread option \<Rightarrow> worker_pc list \<Rightarrow> bool" where
  "lock_ok h m ws =
     ((\<forall>i < length ws. h (ws ! i) = (m = Some (WorkerThread i)))
      \<and> (\<forall>i. m = Some (WorkerThread i) \<longrightarrow> i < length ws))"

definition inv_locks :: "system \<Rightarrow> bool" where
  "inv_locks s =
     (lock_ok holds_mu (mu s) (workers s)
      \<and> main_holds_mu (main s) = (mu s = Some MainThread)
      \<and> lock_ok holds_lat_mu (lat_mu s) (workers s)
      \<and> lat_mu s \<noteq> Some MainThread)"

text \<open>A worker that waits for nothing: its next step is always possible.\<close>

fun free_to_move :: "worker_pc \<Rightarrow> bool" where
  "free_to_move W_Top = False"
| "free_to_move W_Waiting = False"
| "free_to_move W_Woken = False"
| "free_to_move (W_LatLock b t) = False"
| "free_to_move W_Done = False"
| "free_to_move _ = True"

text \<open>
  Every request pushed is in the queue, in the batch of one worker, or recorded; there
  is one latency sample per recorded request; and the processed count is the number
  of recorded requests less those not yet counted, as 32-bit numbers.
\<close>

definition inv_flow :: "system \<Rightarrow> bool" where
  "inv_flow s =
     (mset (submitted s)
        = mset (queue (sched s)) + (\<Sum>w\<leftarrow>workers s. mset (in_flight w)) + mset (recorded s)
      \<and> length (latencies (sched s)) = length (recorded s)
      \<and> (word_of_nat (length (recorded s)) :: cint)
          = total_processed (sched s) + word_of_nat (\<Sum>w\<leftarrow>workers s. uncounted w))"

text \<open>
  The progress of the caller. \<open>payload\<close> is a request without its time stamp;
  \<open>cur_req\<close> the argument of the call of \<open>enqueue\<close> in progress. The requests pushed,
  the one being pushed and those still to be submitted are the requests of the run;
  \<open>start\<close> creates \<open>num_workers_\<close> workers, none if that is not positive; the shutdown
  flag is set from \<open>M_ShutUnlock\<close> on, when nothing is left to submit; a worker leaves
  its loop only with the flag set and the queue empty; no worker waits once
  \<open>notify_all\<close> is done; and \<open>shutdown\<close> returns when all workers have.
\<close>

definition payload :: "InferenceRequest \<Rightarrow> cint \<times> cint \<times> cint" where
  "payload r = (req_id r, priority r, token_count r)"

fun cur_req :: "main_pc \<Rightarrow> InferenceRequest list" where
  "cur_req (M_EnqLock r t) = [r]"
| "cur_req (M_EnqPush r t) = [r]"
| "cur_req _ = []"

fun spawn_ok :: "cint \<Rightarrow> main_pc \<Rightarrow> nat \<Rightarrow> bool" where
  "spawn_ok nw M_Begin n = (n = 0)"
| "spawn_ok nw (M_Spawn i) n = (n = i \<and> int i \<le> max 0 (sint nw))"
| "spawn_ok nw _ n = (int n = max 0 (sint nw))"

fun shut_set :: "main_pc \<Rightarrow> bool" where
  "shut_set M_ShutUnlock = True"
| "shut_set M_ShutNotify = True"
| "shut_set M_Join = True"
| "shut_set M_Done = True"
| "shut_set _ = False"

fun enq_done :: "main_pc \<Rightarrow> bool" where
  "enq_done M_ShutLock = True"
| "enq_done M_ShutSet = True"
| "enq_done pc = shut_set pc"

fun joining :: "main_pc \<Rightarrow> bool" where
  "joining M_Join = True"
| "joining M_Done = True"
| "joining _ = False"

fun finishing :: "worker_pc \<Rightarrow> bool" where
  "finishing W_Break = True"
| "finishing W_Done = True"
| "finishing _ = False"

definition inv_main :: "cint \<Rightarrow> InferenceRequest list \<Rightarrow> system \<Rightarrow> bool" where
  "inv_main nw reqs s =
     (map payload (submitted s) @ map payload (cur_req (main s)) @ map payload (to_submit s)
        = map payload reqs
      \<and> num_workers (sched s) = nw
      \<and> spawn_ok nw (main s) (length (workers s))
      \<and> shutdown (sched s) = shut_set (main s)
      \<and> (enq_done (main s) \<longrightarrow> to_submit s = [])
      \<and> (shutdown (sched s) \<and> queue (sched s) = []
          \<or> list_all (\<lambda>w. \<not> finishing w) (workers s))
      \<and> (joining (main s) \<longrightarrow> list_all (\<lambda>w. w \<noteq> W_Waiting) (workers s))
      \<and> (main s = M_Done \<longrightarrow> list_all (\<lambda>w. w = W_Done) (workers s)))"

text \<open>
  The batch a worker holds, at the points where it holds one. A worker holds a batch
  of at most \<open>batch_size_\<close> requests, and it gets past its entry only if \<open>batch_size_\<close>
  is not negative.
\<close>

fun batch_of :: "worker_pc \<Rightarrow> InferenceRequest list option" where
  "batch_of (W_Unlock b) = Some b"
| "batch_of (W_Batch b) = Some b"
| "batch_of (W_Sleep b us) = Some b"
| "batch_of (W_LatLock b t) = Some b"
| "batch_of (W_Record b t) = Some b"
| "batch_of (W_LatUnlock b) = Some b"
| "batch_of (W_Count b) = Some b"
| "batch_of _ = None"

definition batch_ok :: "cint \<Rightarrow> worker_pc \<Rightarrow> bool" where
  "batch_ok bs w =
     ((w = W_Entry \<or> 0 \<le> sint bs)
      \<and> (case batch_of w of None \<Rightarrow> True | Some b \<Rightarrow> int (length b) \<le> sint bs))"

definition inv_batch :: "cint \<Rightarrow> system \<Rightarrow> bool" where
  "inv_batch bs s = (batch_size (sched s) = bs \<and> list_all (batch_ok bs) (workers s))"

definition inv_heap :: "system \<Rightarrow> bool" where
  "inv_heap s = is_heap (queue (sched s))"

definition invariant :: "cint \<Rightarrow> InferenceRequest list \<Rightarrow> system \<Rightarrow> bool" where
  "invariant nw reqs s = (inv_locks s \<and> inv_flow s \<and> inv_main nw reqs s \<and> inv_heap s)"

subsection \<open>What is left to do\<close>

text \<open>
  A worker is at line 126 only after the predicate of its wait has held, and it has
  kept \<open>mu_\<close> since: a request is queued or the flag is set.
\<close>

definition inv_check :: "system \<Rightarrow> bool" where
  "inv_check s = (W_Check \<in> set (workers s) \<longrightarrow> queue (sched s) \<noteq> [] \<or> shutdown (sched s))"

text \<open>
  A bound on the steps the threads have still to take before \<open>shutdown\<close> returns, when
  the batch size is positive. A worker has at most \<open>worker_budget\<close> steps to the end of
  its round, where it waits, returns, or is back at the top of its loop with a request
  taken; each queued request pays for the round that takes it (10 steps); the caller
  has \<open>main_budget\<close> steps of its own to go, in which every \<open>push\<close> pays for the request
  it queues, every \<open>notify_one\<close> for the worker it wakes (4 steps, back to its wait),
  \<open>notify_all\<close> for all the workers, and every \<open>emplace_back\<close> for the thread it
  starts. \<open>nw\<close> is the number of workers and \<open>n\<close> the number of requests still to
  submit.
\<close>

fun worker_budget :: "worker_pc \<Rightarrow> nat" where
  "worker_budget W_Entry = 5"
| "worker_budget W_Top = 4"
| "worker_budget W_Locked = 3"
| "worker_budget W_Waiting = 0"
| "worker_budget W_Woken = 4"
| "worker_budget W_Check = 2"
| "worker_budget W_Break = 1"
| "worker_budget (W_Unlock b) = 11"
| "worker_budget (W_Batch b) = 10"
| "worker_budget (W_Sleep b us) = 9"
| "worker_budget (W_LatLock b t) = 8"
| "worker_budget (W_Record b t) = 7"
| "worker_budget (W_LatUnlock b) = 6"
| "worker_budget (W_Count b) = 5"
| "worker_budget W_Done = 0"

fun main_budget :: "nat \<Rightarrow> nat \<Rightarrow> main_pc \<Rightarrow> nat" where
  "main_budget nw n M_Begin = 8 + 10 * nw + 19 * n"
| "main_budget nw n (M_Spawn i) = 7 + 4 * nw + 19 * n + 6 * (nw - i)"
| "main_budget nw n M_Idle = 6 + 4 * nw + 19 * n"
| "main_budget nw n (M_EnqLock r t) = 24 + 4 * nw + 19 * n"
| "main_budget nw n (M_EnqPush r t) = 23 + 4 * nw + 19 * n"
| "main_budget nw n M_EnqUnlock = 12 + 4 * nw + 19 * n"
| "main_budget nw n M_EnqNotify = 11 + 4 * nw + 19 * n"
| "main_budget nw n M_ShutLock = 5 + 4 * nw"
| "main_budget nw n M_ShutSet = 4 + 4 * nw"
| "main_budget nw n M_ShutUnlock = 3 + 4 * nw"
| "main_budget nw n M_ShutNotify = 2 + 4 * nw"
| "main_budget nw n M_Join = 1"
| "main_budget nw n M_Done = 0"

definition budget :: "system \<Rightarrow> nat" where
  "budget s =
     main_budget (nat (sint (num_workers (sched s)))) (length (to_submit s)) (main s)
     + (\<Sum>w\<leftarrow>workers s. worker_budget w) + 10 * length (queue (sched s))"

text \<open>The events that are steps of the program, and the spurious wake-ups.\<close>

fun thread_event :: "event \<Rightarrow> bool" where
  "thread_event (Main k) = True"
| "thread_event (Worker i) = True"
| "thread_event _ = False"

fun spurious_event :: "event \<Rightarrow> bool" where
  "spurious_event (Spurious i) = True"
| "spurious_event _ = False"

subsection \<open>Requests as the caller writes them\<close>

text \<open>
  The aggregate \<open>{id, priority, token_count, 0}\<close> that \<open>main\<close> passes to \<open>enqueue\<close>, with
  the time stamp as fourth member.
\<close>

abbreviation request :: "cint \<Rightarrow> cint \<Rightarrow> cint \<Rightarrow> real \<Rightarrow> InferenceRequest" where
  "request i p n t \<equiv> \<lparr> req_id = i, priority = p, token_count = n, enqueue_time_ms = t \<rparr>"

subsection \<open>Four runs\<close>

text \<open>
  A scheduler with no worker and one request: the caller runs \<open>start\<close>, \<open>enqueue\<close> and
  \<open>shutdown\<close> to the end, in thirteen steps.
\<close>

abbreviation run_without_worker :: "event list" where
  "run_without_worker \<equiv>
     [Main 0, Main 0, Main 0, Main 0, Main 0, Main 0, Main 0, Main 0, Main 0, Main 0,
      Main 0, Main 0, Main 0]"

abbreviation end_without_worker :: system where
  "end_without_worker \<equiv>
     \<lparr> sched = \<lparr> num_workers = 0, batch_size = 8, shutdown = True, total_processed = 0,
                 start_time = 0, queue = [request 0 1 100 0], latencies = [] \<rparr>,
       mu = None, lat_mu = None, workers = [], main = M_Done, to_submit = [],
       clock = 0, aborted = False, submitted = [request 0 1 100 0], recorded = [] \<rparr>"

text \<open>
  One worker and one request: the caller starts the worker and submits the request;
  3 ms pass; the worker enters its loop, pulls the request, sleeps, records and counts
  it; the caller signals the shutdown; the worker leaves its loop; \<open>join\<close> returns.
\<close>

abbreviation run_with_worker :: "event list" where
  "run_with_worker \<equiv>
     [Main 0, Main 0, Main 0, Main 0, Main 0, Main 0, Main 0, Main 0, Tick 3,
      Worker 0, Worker 0, Worker 0, Worker 0, Worker 0, Worker 0, Worker 0, Worker 0,
      Worker 0, Worker 0, Worker 0,
      Main 0, Main 0, Main 0, Main 0, Main 0,
      Worker 0, Worker 0, Worker 0, Worker 0, Main 0]"

abbreviation end_with_worker :: system where
  "end_with_worker \<equiv>
     \<lparr> sched = \<lparr> num_workers = 1, batch_size = 8, shutdown = True, total_processed = 1,
                 start_time = 0, queue = [], latencies = [3] \<rparr>,
       mu = None, lat_mu = None, workers = [W_Done], main = M_Done, to_submit = [],
       clock = 3, aborted = False, submitted = [request 0 1 100 0],
       recorded = [request 0 1 100 0] \<rparr>"

text \<open>The same run up to the point where the worker sleeps for 2000 microseconds.\<close>

abbreviation run_until_sleep :: "event list" where
  "run_until_sleep \<equiv>
     [Main 0, Main 0, Main 0, Main 0, Main 0, Main 0, Main 0, Main 0,
      Worker 0, Worker 0, Worker 0, Worker 0, Worker 0, Worker 0]"

abbreviation worker_asleep :: system where
  "worker_asleep \<equiv>
     \<lparr> sched = \<lparr> num_workers = 1, batch_size = 8, shutdown = False, total_processed = 0,
                 start_time = 0, queue = [], latencies = [] \<rparr>,
       mu = None, lat_mu = None, workers = [W_Sleep [request 0 1 100 0] 2000],
       main = M_Idle, to_submit = [], clock = 0, aborted = False,
       submitted = [request 0 1 100 0], recorded = [] \<rparr>"

text \<open>
  One worker, one request and the batch size 0: the caller runs \<open>start\<close> and \<open>enqueue\<close>
  and gets as far as \<open>join\<close> in \<open>shutdown\<close>; the worker enters its loop. From then on
  the worker goes round its loop without taking the request, five steps a round.
\<close>

abbreviation run_to_spin :: "event list" where
  "run_to_spin \<equiv>
     [Main 0, Main 0, Main 0, Main 0, Main 0, Main 0, Main 0, Main 0, Main 0, Main 0,
      Main 0, Main 0, Main 0, Worker 0]"

abbreviation spinning :: system where
  "spinning \<equiv>
     \<lparr> sched = \<lparr> num_workers = 1, batch_size = 0, shutdown = True, total_processed = 0,
                 start_time = 0, queue = [request 0 1 100 0], latencies = [] \<rparr>,
       mu = None, lat_mu = None, workers = [W_Top], main = M_Join, to_submit = [],
       clock = 0, aborted = False, submitted = [request 0 1 100 0], recorded = [] \<rparr>"

abbreviation one_round :: "event list" where
  "one_round \<equiv> [Worker 0, Worker 0, Worker 0, Worker 0, Worker 0]"

section \<open>The priority queue is a max-heap on the priority\<close>

lemma operator_less_prio: "operator_less a b = (prio a < prio b)"
  by (simp add: operator_less_def prio_def word_sless_alt)

lemma is_heap_prio:
  "is_heap c = (\<forall>i < length c. 0 < i \<longrightarrow> prio (c ! i) \<le> prio (c ! parent i))"
  by (auto simp: is_heap_def operator_less_prio not_less)

lemma parent_lt: "0 < k \<Longrightarrow> parent k < k"
  unfolding parent_def by arith

lemma parent_child: "0 < j \<Longrightarrow> parent j = i \<longleftrightarrow> (j = 2 * i + 1 \<or> j = 2 * i + 2)"
  unfolding parent_def by arith

lemma mset_swap_list: "i < length c \<Longrightarrow> j < length c \<Longrightarrow> mset (swap c i j) = mset c"
  unfolding swap_def by (metis mset_swap)

lemma nth_swap:
  "i < length c \<Longrightarrow> j < length c \<Longrightarrow> k < length c \<Longrightarrow>
   swap c i j ! k = (if k = j then c ! i else if k = i then c ! j else c ! k)"
  by (simp add: swap_def nth_list_update)

lemma mset_sift_up: "i < length c \<Longrightarrow> mset (sift_up c i) = mset c"
proof (induction c i rule: sift_up.induct)
  case (1 c i)
  show ?case
  proof (cases "i \<noteq> 0 \<and> operator_less (c ! parent i) (c ! i)")
    case True
    with "1.prems" have p: "parent i < length c" using parent_lt [of i] by simp
    from True "1.prems" p have "mset (sift_up (swap c (parent i) i) (parent i)) = mset (swap c (parent i) i)"
      by (intro "1.IH") simp_all
    with True p "1.prems" show ?thesis
      by (subst sift_up.simps) (simp add: mset_swap_list)
  next
    case False
    then show ?thesis by (subst sift_up.simps) auto
  qed
qed

lemma greater_child_less: "2 * i + 1 < length c \<Longrightarrow> greater_child c i < length c"
  by (simp add: greater_child_def)

lemma mset_sift_down: "mset (sift_down c i) = mset c"
proof (induction c i rule: sift_down.induct)
  case (1 c i)
  show ?case
  proof (cases "2 * i + 1 < length c \<and> operator_less (c ! i) (c ! greater_child c i)")
    case True
    then have "mset (sift_down (swap c i (greater_child c i)) (greater_child c i)) = mset (swap c i (greater_child c i))"
      by (intro "1.IH") simp_all
    with True show ?thesis
      by (subst sift_down.simps) (simp add: mset_swap_list greater_child_less)
  next
    case False
    then show ?thesis by (subst sift_down.simps) auto
  qed
qed

lemma heap_but_up_swap:
  assumes h: "heap_but_up c i" and i: "i < length c" "0 < i"
    and l: "prio (c ! parent i) < prio (c ! i)"
  shows "heap_but_up (swap c (parent i) i) (parent i)"
proof -
  let ?p = "parent i"
  let ?c = "swap c ?p i"
  have p: "?p < i" "?p < length c" using i parent_lt [of i] by auto
  from h have h1: "\<And>j. j < length c \<Longrightarrow> 0 < j \<Longrightarrow> j \<noteq> i \<Longrightarrow> prio (c ! j) \<le> prio (c ! parent j)"
    and h2: "\<And>j. j < length c \<Longrightarrow> 0 < j \<Longrightarrow> parent j = i \<Longrightarrow> prio (c ! j) \<le> prio (c ! ?p)"
    using i by (auto simp: heap_but_up_def)
  have ci: "?c ! i = c ! ?p" and cp: "?c ! ?p = c ! i"
    using p i by (simp_all add: nth_swap)
  have co: "\<And>k. k < length c \<Longrightarrow> k \<noteq> i \<Longrightarrow> k \<noteq> ?p \<Longrightarrow> ?c ! k = c ! k"
    using p i by (simp add: nth_swap)
  show ?thesis
    unfolding heap_but_up_def
  proof (intro conjI allI impI)
    fix j assume j: "j < length ?c" "0 < j" "j \<noteq> ?p"
    then have jl: "j < length c" and pj: "parent j < length c" "parent j < j"
      using parent_lt [of j] by auto
    show "prio (?c ! j) \<le> prio (?c ! parent j)"
    proof (cases "j = i")
      case True
      with ci cp l show ?thesis by simp
    next
      case ji: False
      with j jl have cj: "?c ! j = c ! j" by (simp add: co)
      show ?thesis
      proof (cases "parent j = ?p")
        case True
        with h1 [OF jl j(2) ji] l cj cp show ?thesis by simp
      next
        case pp: False
        show ?thesis
        proof (cases "parent j = i")
          case True
          with h2 [OF jl j(2)] cj ci show ?thesis by simp
        next
          case False
          with pp pj have "?c ! parent j = c ! parent j" by (simp add: co)
          with h1 [OF jl j(2) ji] cj show ?thesis by simp
        qed
      qed
    qed
  next
    fix j assume j: "j < length ?c" "0 < j" "0 < ?p" "parent j = ?p"
    then have jl: "j < length c" by simp
    have pp: "parent ?p < ?p" using j by (intro parent_lt)
    with p have cpp: "?c ! parent ?p = c ! parent ?p" by (simp add: co)
    have pup: "prio (c ! ?p) \<le> prio (c ! parent ?p)"
      using h1 [of ?p] p j by simp
    show "prio (?c ! j) \<le> prio (?c ! parent ?p)"
    proof (cases "j = i")
      case True
      with ci cpp pup show ?thesis by simp
    next
      case False
      moreover have "j \<noteq> ?p" using j parent_lt [of j] by auto
      ultimately have "?c ! j = c ! j" using jl by (simp add: co)
      moreover have "prio (c ! j) \<le> prio (c ! ?p)" using h1 [OF jl j(2) False] j by simp
      ultimately show ?thesis using cpp pup by simp
    qed
  qed
qed

lemma heap_but_up_sift_up:
  "heap_but_up c i \<Longrightarrow> i < length c \<Longrightarrow> is_heap (sift_up c i)"
proof (induction c i rule: sift_up.induct)
  case (1 c i)
  show ?case
  proof (cases "i = 0")
    case True
    with "1.prems" show ?thesis
      by (subst sift_up.simps) (auto simp: heap_but_up_def is_heap_prio)
  next
    case i0: False
    show ?thesis
    proof (cases "operator_less (c ! parent i) (c ! i)")
      case True
      with i0 "1.prems" have "heap_but_up (swap c (parent i) i) (parent i)"
        by (intro heap_but_up_swap) (simp_all add: operator_less_prio)
      moreover have "parent i < length (swap c (parent i) i)"
        using i0 "1.prems" parent_lt [of i] by simp
      ultimately have "is_heap (sift_up (swap c (parent i) i) (parent i))"
        using i0 True by (intro "1.IH") simp_all
      with i0 True show ?thesis by (subst sift_up.simps) simp
    next
      case False
      then have "prio (c ! i) \<le> prio (c ! parent i)" by (simp add: operator_less_prio)
      with "1.prems" have "is_heap c"
        unfolding heap_but_up_def is_heap_prio by metis
      with i0 False show ?thesis by (subst sift_up.simps) simp
    qed
  qed
qed

lemma is_heap_pq_push: "is_heap c \<Longrightarrow> is_heap (pq_push c x)"
proof -
  assume h: "is_heap c"
  have "heap_but_up (c @ [x]) (length c)"
    unfolding heap_but_up_def
  proof (intro conjI allI impI)
    fix j assume j: "j < length (c @ [x])" "0 < j" "j \<noteq> length c"
    then have "j < length c" "parent j < length c" using parent_lt [of j] by auto
    with h j show "prio ((c @ [x]) ! j) \<le> prio ((c @ [x]) ! parent j)"
      by (simp add: nth_append is_heap_prio)
  next
    fix j assume j: "j < length (c @ [x])" "0 < j" "parent j = length c"
    then have False using parent_lt [of j] by simp
    then show "prio ((c @ [x]) ! j) \<le> prio ((c @ [x]) ! parent (length c))" ..
  qed
  then show ?thesis
    by (simp add: pq_push_def push_heap_def heap_but_up_sift_up)
qed

lemma mset_pq_push: "mset (pq_push c x) = mset c + {#x#}"
  by (simp add: pq_push_def push_heap_def mset_sift_up)


lemma greater_child_cases:
  "greater_child c i = 2 * i + 1 \<or> greater_child c i = 2 * i + 2"
  by (simp add: greater_child_def)

lemma parent_greater_child: "parent (greater_child c i) = i"
  using greater_child_cases [of c i] by (auto simp: parent_def)

lemma greater_child_gt: "i < greater_child c i"
  using greater_child_cases [of c i] by auto

lemma greater_child_max:
  assumes "j < length c" and "0 < j" and "parent j = i"
  shows "prio (c ! j) \<le> prio (c ! greater_child c i)"
proof -
  from assms have "j = 2 * i + 1 \<or> j = 2 * i + 2"
    by (simp add: parent_child)
  with assms(1) show ?thesis
    by (auto simp: greater_child_def operator_less_prio)
qed

lemma heap_but_down_swap:
  assumes h: "heap_but_down c i" and i: "2 * i + 1 < length c"
    and l: "prio (c ! i) < prio (c ! greater_child c i)"
  shows "heap_but_down (swap c i (greater_child c i)) (greater_child c i)"
proof -
  let ?g = "greater_child c i"
  let ?c = "swap c i ?g"
  have g: "?g < length c" "i < ?g" "parent ?g = i" "i < length c" "0 < ?g"
    using i greater_child_less [of i c] greater_child_gt [of i c] parent_greater_child [of c i]
    by auto
  from h have h1: "\<And>j. j < length c \<Longrightarrow> 0 < j \<Longrightarrow> parent j \<noteq> i \<Longrightarrow> prio (c ! j) \<le> prio (c ! parent j)"
    and h2: "\<And>j. j < length c \<Longrightarrow> 0 < j \<Longrightarrow> 0 < i \<Longrightarrow> parent j = i \<Longrightarrow> prio (c ! j) \<le> prio (c ! parent i)"
    by (auto simp: heap_but_down_def)
  have cg: "?c ! ?g = c ! i" and ci: "?c ! i = c ! ?g"
    using g by (simp_all add: nth_swap)
  have co: "\<And>k. k < length c \<Longrightarrow> k \<noteq> i \<Longrightarrow> k \<noteq> ?g \<Longrightarrow> ?c ! k = c ! k"
    using g by (simp add: nth_swap)
  show ?thesis
    unfolding heap_but_down_def
  proof (intro conjI allI impI)
    fix j assume j: "j < length ?c" "0 < j" "parent j \<noteq> ?g"
    then have jl: "j < length c" and pj: "parent j < length c" "parent j < j"
      using parent_lt [of j] by auto
    show "prio (?c ! j) \<le> prio (?c ! parent j)"
    proof (cases "j = ?g")
      case True
      with g cg ci l show ?thesis by simp
    next
      case jg: False
      show ?thesis
      proof (cases "j = i")
        case True
        with j have "0 < i" by simp
        from True pj g have "parent i \<noteq> i" "parent i \<noteq> ?g" by auto
        with True pj have "?c ! parent i = c ! parent i" by (simp add: co)
        moreover from h2 [OF g(1) g(5) \<open>0 < i\<close> g(3)] have "prio (c ! ?g) \<le> prio (c ! parent i)" .
        ultimately show ?thesis using True ci by simp
      next
        case ji: False
        with jg jl have cj: "?c ! j = c ! j" by (simp add: co)
        show ?thesis
        proof (cases "parent j = i")
          case True
          with greater_child_max [OF jl j(2)] cj ci show ?thesis by simp
        next
          case False
          with j pj have "?c ! parent j = c ! parent j" by (simp add: co)
          with h1 [OF jl j(2) False] cj show ?thesis by simp
        qed
      qed
    qed
  next
    fix j assume j: "j < length ?c" "0 < j" "0 < ?g" "parent j = ?g"
    then have jl: "j < length c" and gj: "?g < j" using parent_lt [of j] by auto
    with g have "j \<noteq> i" "j \<noteq> ?g" by auto
    with jl have "?c ! j = c ! j" by (simp add: co)
    moreover from j g have "parent j \<noteq> i" by auto
    from h1 [OF jl j(2) this] j have "prio (c ! j) \<le> prio (c ! ?g)" by simp
    ultimately show "prio (?c ! j) \<le> prio (?c ! parent ?g)"
      using g ci by simp
  qed
qed

lemma heap_but_down_sift_down: "heap_but_down c i \<Longrightarrow> is_heap (sift_down c i)"
proof (induction c i rule: sift_down.induct)
  case (1 c i)
  show ?case
  proof (cases "2 * i + 1 < length c")
    case False
    have "is_heap c"
      unfolding is_heap_prio
    proof (intro allI impI)
      fix j assume j: "j < length c" "0 < j"
      with False have "parent j \<noteq> i" by (auto simp: parent_child)
      with "1.prems" j show "prio (c ! j) \<le> prio (c ! parent j)"
        by (simp add: heap_but_down_def)
    qed
    with False show ?thesis by (subst sift_down.simps) simp
  next
    case ch: True
    show ?thesis
    proof (cases "operator_less (c ! i) (c ! greater_child c i)")
      case True
      with ch "1.prems" have "heap_but_down (swap c i (greater_child c i)) (greater_child c i)"
        by (intro heap_but_down_swap) (simp_all add: operator_less_prio)
      then have "is_heap (sift_down (swap c i (greater_child c i)) (greater_child c i))"
        using ch True by (intro "1.IH") simp_all
      with ch True show ?thesis by (subst sift_down.simps) simp
    next
      case False
      then have le: "prio (c ! greater_child c i) \<le> prio (c ! i)"
        by (simp add: operator_less_prio)
      have "is_heap c"
        unfolding is_heap_prio
      proof (intro allI impI)
        fix j assume j: "j < length c" "0 < j"
        show "prio (c ! j) \<le> prio (c ! parent j)"
        proof (cases "parent j = i")
          case True
          with greater_child_max [OF j] le show ?thesis by simp
        next
          case False
          with "1.prems" j show ?thesis by (simp add: heap_but_down_def)
        qed
      qed
      with False show ?thesis by (subst sift_down.simps) simp
    qed
  qed
qed

lemma nth_swap_last:
  assumes "c \<noteq> []" and "k < length c"
  shows "swap c 0 (length c - Suc 0) ! k =
           (if k = length c - Suc 0 then c ! 0
            else if k = 0 then c ! (length c - Suc 0) else c ! k)"
proof -
  from assms have "0 < length c" "length c - Suc 0 < length c" by simp_all
  from nth_swap [OF this assms(2)] show ?thesis .
qed

lemma is_heap_pq_pop:
  assumes "is_heap c" and "pq_pop c = Some c'"
  shows "is_heap c'"
proof -
  from assms(2) have ne: "c \<noteq> []" and c': "c' = sift_down (butlast (swap c 0 (length c - 1))) 0"
    by (auto simp: pq_pop_def split: if_splits)
  let ?b = "butlast (swap c 0 (length c - 1))"
  have "heap_but_down ?b 0"
    unfolding heap_but_down_def
  proof (intro conjI allI impI)
    fix j assume j: "j < length ?b" "0 < j" "parent j \<noteq> 0"
    then have jl: "j < length c - 1" and pj: "parent j < j" using parent_lt [of j] by auto
    with j ne have "?b ! j = c ! j" "?b ! parent j = c ! parent j"
      by (simp_all add: nth_butlast nth_swap_last)
    with assms(1) jl j show "prio (?b ! j) \<le> prio (?b ! parent j)"
      by (simp add: is_heap_prio)
  qed simp
  with c' show ?thesis by (simp add: heap_but_down_sift_down)
qed

lemma mset_pq_pop:
  assumes "pq_pop c = Some c'"
  shows "mset c = add_mset (hd c) (mset c')"
proof -
  from assms have ne: "c \<noteq> []" and c': "c' = sift_down (butlast (swap c 0 (length c - 1))) 0"
    by (auto simp: pq_pop_def split: if_splits)
  let ?s = "swap c 0 (length c - 1)"
  from ne have "?s \<noteq> []" by (metis length_swap length_0_conv)
  then have "mset ?s = add_mset (last ?s) (mset (butlast ?s))"
    by (metis append_butlast_last_id mset.simps(2) mset_append union_mset_add_mset_right add.right_neutral mset.simps(1))
  moreover from ne \<open>?s \<noteq> []\<close> have "last ?s = hd c"
    by (simp add: last_conv_nth nth_swap_last hd_conv_nth)
  moreover from ne have "mset ?s = mset c" by (simp add: mset_swap_list)
  ultimately show ?thesis using c' by (simp add: mset_sift_down)
qed

lemma heap_top_max:
  assumes "is_heap c" and "i < length c"
  shows "prio (c ! i) \<le> prio (c ! 0)"
  using assms(2)
proof (induction i rule: less_induct)
  case (less i)
  show ?case
  proof (cases "i = 0")
    case True then show ?thesis by simp
  next
    case False
    then have p: "parent i < i" by (simp add: parent_lt)
    with less.prems have "prio (c ! parent i) \<le> prio (c ! 0)" by (intro less.IH) simp_all
    moreover from assms(1) less.prems False have "prio (c ! i) \<le> prio (c ! parent i)"
      by (simp add: is_heap_prio)
    ultimately show ?thesis by simp
  qed
qed

lemma heap_hd_max: "is_heap c \<Longrightarrow> x \<in> set c \<Longrightarrow> prio x \<le> prio (hd c)"
  by (metis heap_top_max in_set_conv_nth hd_conv_nth length_greater_0_conv length_pos_if_in_set)

section \<open>The drain loop\<close>

lemma sint_word_of_nat_small:
  assumes "n < 2 ^ 31"
  shows "sint (word_of_nat n :: cint) = int n"
proof -
  from assms have "int n < int (2 ^ 31)" by (simp only: of_nat_less_iff)
  then have "int n < 2 ^ 31" by simp
  moreover have "- (2 ^ 31) \<le> int n" by (rule order_trans [of _ 0]) simp_all
  moreover have "(word_of_nat n :: cint) = word_of_int (int n)" by simp
  ultimately show ?thesis
    by (simp add: sint_sbintrunc' signed_take_bit_int_eq_self del: of_int_of_nat_eq)
qed

lemma sint_cint_lt: "sint (w :: cint) < 2 ^ 31"
  using sint_lt [of w] by simp

lemma cast_size_less:
  "length batch < 2 ^ 31 \<Longrightarrow> ((word_of_nat (length batch) :: cint) <s bs) = (int (length batch) < sint bs)"
  by (simp add: word_sless_alt sint_word_of_nat_small)

lemma pq_top_Some: "q \<noteq> [] \<Longrightarrow> pq_top q = Some (hd q)"
  by (cases q) (simp_all add: pq_top_def)

lemma pq_pop_Some: "q \<noteq> [] \<Longrightarrow> \<exists>q'. pq_pop q = Some q'"
  by (simp add: pq_pop_def)

lemma drain_loop_step:
  assumes "q \<noteq> []" and "(word_of_nat (length batch) :: cint) <s bs" and "pq_pop q = Some q1"
  shows "drain_loop bs batch q = drain_loop bs (batch @ [hd q]) q1"
  using assms by (subst drain_loop.simps) (simp add: pq_top_Some)

lemma drain_loop_stop:
  assumes "q = [] \<or> \<not> (word_of_nat (length batch) :: cint) <s bs"
  shows "drain_loop bs batch q = (batch, q)"
  using assms by (subst drain_loop.simps) auto

lemma drain_loop_length:
  "length batch < 2 ^ 31 \<Longrightarrow>
   length (fst (drain_loop bs batch q))
     = length batch + min (length q) (nat (sint bs - int (length batch)))"
proof (induction bs batch q rule: drain_loop.induct)
  case (1 bs batch q)
  show ?case
  proof (cases "q \<noteq> [] \<and> (word_of_nat (length batch) :: cint) <s bs")
    case True
    then obtain q1 where q1: "pq_pop q = Some q1" using pq_pop_Some by blast
    from True "1.prems" have lt: "int (length batch) < sint bs" by (simp add: cast_size_less)
    with sint_cint_lt [of bs] have "int (length (batch @ [hd q])) < 2 ^ 31" by simp
    then have "int (length (batch @ [hd q])) < int (2 ^ 31)" by simp
    then have b: "length (batch @ [hd q]) < 2 ^ 31" by (simp only: of_nat_less_iff)
    from q1 have lq: "length q = Suc (length q1)"
      by (auto simp: pq_pop_def split: if_splits)
    from True q1 have "length (fst (drain_loop bs (batch @ [hd q]) q1))
        = length (batch @ [hd q]) + min (length q1) (nat (sint bs - int (length (batch @ [hd q]))))"
      by (intro "1.IH" [OF True refl _ _ b]) (simp_all add: pq_top_Some)
    with True q1 lt lq show ?thesis
      by (simp add: drain_loop_step [OF _ _ q1])
  next
    case False
    then have "drain_loop bs batch q = (batch, q)" by (intro drain_loop_stop) auto
    moreover from False "1.prems" have "q = [] \<or> sint bs - int (length batch) \<le> 0"
      by (auto simp: cast_size_less)
    ultimately show ?thesis by auto
  qed
qed

lemma drain_loop_props:
  "is_heap q \<Longrightarrow>
   \<exists>taken q'. drain_loop bs batch q = (batch @ taken, q')
      \<and> mset taken + mset q' = mset q \<and> is_heap q'
      \<and> sorted (rev (map prio taken))
      \<and> (\<forall>t \<in> set taken. \<forall>r \<in> set q'. prio r \<le> prio t)"
proof (induction bs batch q rule: drain_loop.induct)
  case (1 bs batch q)
  show ?case
  proof (cases "q \<noteq> [] \<and> (word_of_nat (length batch) :: cint) <s bs")
    case True
    then obtain q1 where q1: "pq_pop q = Some q1" using pq_pop_Some by blast
    from "1.prems" q1 have h1: "is_heap q1" by (rule is_heap_pq_pop)
    from q1 have m: "mset q = add_mset (hd q) (mset q1)" by (rule mset_pq_pop)
    from True q1 h1 obtain taken q' where
      d: "drain_loop bs (batch @ [hd q]) q1 = ((batch @ [hd q]) @ taken, q')"
      and mm: "mset taken + mset q' = mset q1" and hq: "is_heap q'"
      and st: "sorted (rev (map prio taken))"
      and dom: "\<forall>t \<in> set taken. \<forall>r \<in> set q'. prio r \<le> prio t"
      using "1.IH" [OF True refl _ _ h1, of "hd q"] by (auto simp: pq_top_Some)
    from mm have sub: "set taken \<subseteq> set q1" "set q' \<subseteq> set q1"
      by (metis set_mset_mset set_mset_union Un_upper1 Un_upper2)+
    from m have "set q1 \<subseteq> set q"
      by (metis set_mset_mset set_mset_add_mset_insert subset_insertI)
    with sub "1.prems" have mx: "\<forall>y \<in> set taken \<union> set q'. prio y \<le> prio (hd q)"
      by (auto intro: heap_hd_max)
    have "drain_loop bs batch q = (batch @ (hd q # taken), q')"
      using True d by (simp add: drain_loop_step [OF _ _ q1])
    moreover have "mset (hd q # taken) + mset q' = mset q" using m mm by simp
    moreover have "sorted (rev (map prio (hd q # taken)))"
      using st mx by (simp add: sorted_append)
    moreover have "\<forall>t \<in> set (hd q # taken). \<forall>r \<in> set q'. prio r \<le> prio t"
      using dom mx by auto
    ultimately show ?thesis using hq by blast
  next
    case False
    then have "drain_loop bs batch q = (batch @ [], q)" by (simp add: drain_loop_stop)
    with "1.prems" show ?thesis by (intro exI [of _ "[]"] exI [of _ q]) simp
  qed
qed

lemma top_k_by_priority:
  fixes f :: "'a \<Rightarrow> int"
  assumes m: "mset b + mset r = mset q" and s: "sorted (rev (map f b))"
    and d: "\<forall>t \<in> set b. \<forall>x \<in> set r. f x \<le> f t"
  shows "map f b = take (length b) (rev (sort (map f q)))"
proof -
  let ?L = "sort (map f r) @ rev (map f b)"
  have "sorted ?L" using s d by (auto simp: sorted_append)
  moreover have "mset ?L = mset (map f q)"
    using m by (metis mset_append mset_map mset_rev mset_sort union_commute image_mset_union)
  ultimately have "sort (map f q) = ?L"
    by (metis properties_for_sort)
  then show ?thesis by simp
qed


section \<open>Submission\<close>

text \<open>
  C6, as the specification states it, fails: \<open>enqueue\<close> does not assign the identifier.
  It stores the one its caller wrote into the request, and two requests submitted with
  the identifier 7 are both queued with the identifier 7.
\<close>

theorem enqueue_keeps_caller_identifier:
  "queue (enqueue 2 (request 7 1 100 0) (enqueue 1 (request 7 2 100 0) (new_scheduler 4 8)))
     = [request 7 2 100 1, request 7 1 100 2]
   \<and> map req_id
        (queue (enqueue 2 (request 7 1 100 0) (enqueue 1 (request 7 2 100 0) (new_scheduler 4 8))))
     = [7, 7]"
  by (simp add: enqueue_def new_scheduler_def) code_simp

text \<open>
  C6, amended: \<open>enqueue\<close> takes a request that carries the identifier its caller chose
  and stores it unchanged; it neither creates nor checks identifiers and returns
  nothing. It stamps the clock reading as the enqueue time, the only field modified,
  and adds the stamped request to the queue, which keeps every request it held, stays
  a heap and grows by one whatever its size; no other member of the scheduler changes.
\<close>

theorem enqueue_stamps_and_inserts:
  "mset (queue (enqueue now req s))
      = add_mset (req\<lparr> enqueue_time_ms := now \<rparr>) (mset (queue s))
   \<and> req\<lparr> enqueue_time_ms := now \<rparr>
      = \<lparr> req_id = req_id req, priority = priority req, token_count = token_count req,
          enqueue_time_ms = now \<rparr>
   \<and> length (queue (enqueue now req s)) = Suc (length (queue s))
   \<and> (is_heap (queue s) \<longrightarrow> is_heap (queue (enqueue now req s)))
   \<and> enqueue now req s = s\<lparr> queue := queue (enqueue now req s) \<rparr>"
proof (intro conjI impI)
  show m: "mset (queue (enqueue now req s))
      = add_mset (req\<lparr> enqueue_time_ms := now \<rparr>) (mset (queue s))"
    by (simp add: enqueue_def mset_pq_push)
  from arg_cong [OF m, of size]
  show "length (queue (enqueue now req s)) = Suc (length (queue s))"
    by simp
  show "req\<lparr> enqueue_time_ms := now \<rparr>
      = \<lparr> req_id = req_id req, priority = priority req, token_count = token_count req,
          enqueue_time_ms = now \<rparr>"
    by simp
  show "enqueue now req s = s\<lparr> queue := queue (enqueue now req s) \<rparr>"
    by (simp add: enqueue_def)
next
  assume "is_heap (queue s)"
  then show "is_heap (queue (enqueue now req s))"
    by (simp add: enqueue_def is_heap_pq_push)
qed

theorem enqueue_stamps_and_inserts_witness:
  "is_heap (queue (new_scheduler 4 8))
   \<and> is_heap (queue (enqueue 1 (request 7 2 100 0) (new_scheduler 4 8)))
   \<and> queue (enqueue 1 (request 7 2 100 0) (new_scheduler 4 8)) = [request 7 2 100 1]"
proof -
  have h: "is_heap (queue (new_scheduler 4 8))"
    by (simp add: is_heap_def new_scheduler_def)
  have q: "queue (enqueue 1 (request 7 2 100 0) (new_scheduler 4 8)) = [request 7 2 100 1]"
    by (simp add: enqueue_def new_scheduler_def) code_simp
  from enqueue_stamps_and_inserts [of 1 "request 7 2 100 0" "new_scheduler 4 8"] h
  have "is_heap (queue (enqueue 1 (request 7 2 100 0) (new_scheduler 4 8)))"
    by blast
  with h q show ?thesis
    by simp
qed

section \<open>The simulated processing cost\<close>

lemma fold_tokens: "fold (\<lambda>r t. t + token_count r) b a = a + (\<Sum>r\<leftarrow>b. token_count r)"
  by (induction b arbitrary: a) (simp_all add: add.assoc)

lemma total_tokens_sum: "total_tokens b = (\<Sum>r\<leftarrow>b. token_count r)"
  by (simp add: total_tokens_def fold_tokens)

lemma sum_list_word_of_int:
  "(\<Sum>r\<leftarrow>b. token_count r) = word_of_int (\<Sum>r\<leftarrow>b. sint (token_count r))"
  by (induction b) simp_all

text \<open>The accumulator holds the sum of the sizes modulo \<open>2 ^ 32\<close>.\<close>

lemma total_tokens_wrap: "total_tokens b = word_of_int (\<Sum>r\<leftarrow>b. sint (token_count r))"
  by (simp add: total_tokens_sum sum_list_word_of_int)

lemma sint_total_tokens:
  assumes "- (2 ^ 31) \<le> (\<Sum>r\<leftarrow>b. sint (token_count r))"
    and "(\<Sum>r\<leftarrow>b. sint (token_count r)) < 2 ^ 31"
  shows "sint (total_tokens b) = (\<Sum>r\<leftarrow>b. sint (token_count r))"
  using assms by (simp add: total_tokens_wrap sint_sbintrunc' signed_take_bit_int_eq_self)

lemma total_tokens_filter:
  "total_tokens (filter (\<lambda>r. token_count r \<noteq> 0) b) = total_tokens b"
  unfolding total_tokens_sum by (induction b) simp_all

lemma size_clamped_id:
  assumes "0 \<le> sint (token_count r)"
  shows "size_clamped r = r"
proof (cases "token_count r \<le>s 0")
  case True
  with assms have "sint (token_count r) = 0"
    by (simp add: word_sle_eq)
  then have "token_count r = 0"
    by (simp add: signed_eq_0_iff)
  then show ?thesis
    by (simp add: size_clamped_def)
next
  case False
  then show ?thesis
    by (simp add: size_clamped_def)
qed

lemma sum_list_nonneg_sizes:
  "\<forall>r \<in> set b. 0 \<le> sint (token_count r) \<Longrightarrow> 0 \<le> (\<Sum>r\<leftarrow>b. sint (token_count r))"
  by (induction b) simp_all

text \<open>
  C7, as the specification states it, fails: the loop adds \<open>token_count\<close> with its sign.
  A batch of sizes 100 and -50 costs 1 ms, where the same batch with the negative size
  replaced by 0 costs 2 ms; a batch of the single size -50 has the negative cost -1 ms.
\<close>

theorem negative_size_lowers_cost:
  "sim_ms [request 0 1 100 0, request 1 1 (- 50) 0] = 1
   \<and> sim_ms (map size_clamped [request 0 1 100 0, request 1 1 (- 50) 0]) = 2
   \<and> sim_ms [request 0 1 100 0, request 1 1 (- 50) 0]
       \<noteq> sim_ms (map size_clamped [request 0 1 100 0, request 1 1 (- 50) 0])
   \<and> sim_ms [request 1 1 (- 50) 0] = - 1
   \<and> sim_ms [request 1 1 (- 50) 0] < 0"
  by (simp add: sim_ms_def total_tokens_def size_clamped_def word_sle_eq)

text \<open>
  C7, amended: a request of size zero contributes nothing to the cost of its batch. A
  negative size is not clamped: the cost is 0.02 ms times the signed 32-bit sum of the
  sizes. For a batch whose sizes are all non-negative and sum to less than \<open>2 ^ 31\<close>,
  the cost equals the cost of the batch with the non-positive sizes replaced by 0, and
  is not negative.
\<close>

theorem zero_size_contributes_nothing:
  "sim_ms (filter (\<lambda>r. token_count r \<noteq> 0) batch) = sim_ms batch
   \<and> sim_ms batch = 0.02 * real_of_int (sint (total_tokens batch))
   \<and> ((\<forall>r \<in> set batch. 0 \<le> sint (token_count r))
        \<and> (\<Sum>r\<leftarrow>batch. sint (token_count r)) < 2 ^ 31
      \<longrightarrow> sim_ms (map size_clamped batch) = sim_ms batch \<and> 0 \<le> sim_ms batch)"
proof (intro conjI impI)
  show "sim_ms (filter (\<lambda>r. token_count r \<noteq> 0) batch) = sim_ms batch"
    by (simp add: sim_ms_def total_tokens_filter)
  show "sim_ms batch = 0.02 * real_of_int (sint (total_tokens batch))"
    by (simp add: sim_ms_def)
next
  assume h: "(\<forall>r \<in> set batch. 0 \<le> sint (token_count r))
     \<and> (\<Sum>r\<leftarrow>batch. sint (token_count r)) < 2 ^ 31"
  then have "map size_clamped batch = batch"
    by (simp add: map_idI size_clamped_id)
  then show "sim_ms (map size_clamped batch) = sim_ms batch"
    by simp
  from h have nonneg: "0 \<le> (\<Sum>r\<leftarrow>batch. sint (token_count r))"
    by (simp add: sum_list_nonneg_sizes)
  with h have "sint (total_tokens batch) = (\<Sum>r\<leftarrow>batch. sint (token_count r))"
    by (intro sint_total_tokens) simp_all
  with nonneg show "0 \<le> sim_ms batch"
    by (simp add: sim_ms_def)
qed

theorem zero_size_contributes_nothing_witness:
  "sim_ms (filter (\<lambda>r. token_count r \<noteq> 0) [request 0 1 100 0, request 1 1 0 0])
     = sim_ms [request 0 1 100 0, request 1 1 0 0]
   \<and> sim_ms (map size_clamped [request 0 1 100 0, request 1 1 0 0])
     = sim_ms [request 0 1 100 0, request 1 1 0 0]
   \<and> 0 \<le> sim_ms [request 0 1 100 0, request 1 1 0 0]
   \<and> sim_ms [request 0 1 100 0, request 1 1 0 0] = 2"
proof -
  let ?b = "[request 0 1 100 0, request 1 1 0 0]"
  have h: "(\<forall>r \<in> set ?b. 0 \<le> sint (token_count r))
     \<and> (\<Sum>r\<leftarrow>?b. sint (token_count r)) < 2 ^ 31"
    by simp
  have v: "sim_ms ?b = 2"
    by (simp add: sim_ms_def total_tokens_def)
  from zero_size_contributes_nothing [of ?b] h v show ?thesis
    by blast
qed

subsection \<open>The products in double precision\<close>

lemma bit_len_bounds: "0 < a \<Longrightarrow> 2 ^ (bit_len a - 1) \<le> a \<and> a < 2 ^ bit_len a"
proof (induction a rule: bit_len.induct)
  case (1 n)
  show ?case
  proof (cases "n div 2 = 0")
    case True
    with 1 have "n = 1" by (simp add: div_eq_0_iff)
    then show ?thesis by (simp add: bit_len.simps)
  next
    case False
    with 1 have ih: "2 ^ (bit_len (n div 2) - 1) \<le> n div 2 \<and> n div 2 < 2 ^ bit_len (n div 2)"
      by simp
    from False have p: "0 < bit_len (n div 2)" by (subst bit_len.simps) simp
    have e: "bit_len n = Suc (bit_len (n div 2))" using 1 by (subst bit_len.simps) simp
    define X :: nat where "X = 2 ^ (bit_len (n div 2) - 1)"
    from p have x: "(2::nat) ^ bit_len (n div 2) = 2 * X"
      unfolding X_def by (cases "bit_len (n div 2)") simp_all
    from ih have "X \<le> n div 2" "n div 2 < 2 * X"
      unfolding x by (simp_all add: X_def)
    then have "2 * X \<le> n \<and> n < 4 * X"
      by arith
    then show ?thesis
      unfolding e using x by simp
  qed
qed

text \<open>Rounding to \<open>k\<close> bits less moves a mantissa by at most half a unit of the result.\<close>

lemma round_half_even_error:
  assumes "0 \<le> a"
  shows "2 * \<bar>round_half_even a k * 2 ^ k - a\<bar> \<le> 2 ^ k"
proof -
  define P :: int where "P = 2 ^ k"
  have P: "0 < P" by (simp add: P_def)
  have d: "a = (a div P) * P + a mod P"
    by simp
  have m: "0 \<le> a mod P" "a mod P < P"
    using P by simp_all
  define q where "q = a div P"
  define r where "r = a mod P"
  have "2 * \<bar>(if 2 * r < P then q else if P < 2 * r then q + 1
           else if even q then q else q + 1) * P - (q * P + r)\<bar> \<le> P"
    using m unfolding r_def [symmetric] by (auto simp: algebra_simps abs_if)
  then show ?thesis
    unfolding round_half_even_def P_def [symmetric] q_def [symmetric] r_def [symmetric]
    using d unfolding q_def r_def by simp
qed

lemma round_half_even_zero: "round_half_even a 0 = a"
  by (simp add: round_half_even_def)

lemma round_half_even_nonneg: "0 \<le> a \<Longrightarrow> 0 \<le> round_half_even a k"
  by (simp add: round_half_even_def pos_imp_zdiv_nonneg_iff)

lemma dbl_val_shift: "dbl_val (m, e + int k) = real_of_int (m * 2 ^ k) * 2 powi e"
  by (simp add: dbl_val_def power_int_add)

lemma abs_scaled: "0 < x \<Longrightarrow> \<bar>real_of_int s * x\<bar> = real_of_int \<bar>s\<bar> * x"
  by (simp add: abs_mult)

text \<open>The relative error of one rounding is at most \<open>2 ^ - 53\<close>.\<close>

lemma round_double_error:
  "\<bar>dbl_val (round_double d) - dbl_val d\<bar> \<le> \<bar>dbl_val d\<bar> / 2 ^ 53"
proof -
  define m where "m = fst d"
  define e where "e = snd d"
  define a where "a = \<bar>m\<bar>"
  define k where "k = bit_len (nat a) - 53"
  define R where "R = round_half_even a k"
  have a0: "0 \<le> a" by (simp add: a_def)
  have d: "d = (m, e)" by (simp add: m_def e_def)
  have rd: "round_double d = (sgn m * R, e + int k)"
    by (simp add: round_double_def R_def k_def a_def m_def e_def)
  have err: "real_of_int \<bar>R * 2 ^ k - a\<bar> \<le> real_of_int a / 2 ^ 53"
  proof (cases "k = 0")
    case True
    then show ?thesis using a0 by (simp add: R_def round_half_even_zero)
  next
    case False
    then have bl: "bit_len (nat a) = 53 + k"
      unfolding k_def by simp
    have pos: "0 < nat a"
    proof (rule Nat.gr0I)
      assume "nat a = 0"
      then have "bit_len (nat a) = 0" by (simp add: bit_len.simps)
      with bl show False by simp
    qed
    from bit_len_bounds [OF pos] have "2 ^ (52 + k) \<le> nat a"
      unfolding bl by simp
    then have "int (2 ^ (52 + k)) \<le> int (nat a)"
      by (simp only: of_nat_le_iff)
    with a0 have big: "2 ^ 52 * 2 ^ k \<le> a"
      by (simp add: power_add)
    from round_half_even_error [OF a0, of k] have "2 * \<bar>R * 2 ^ k - a\<bar> \<le> 2 ^ k"
      by (simp add: R_def)
    with big have "2 ^ 53 * \<bar>R * 2 ^ k - a\<bar> \<le> a"
      by simp
    then have "real_of_int (2 ^ 53 * \<bar>R * 2 ^ k - a\<bar>) \<le> real_of_int a"
      by (simp only: of_int_le_iff)
    then show ?thesis
      by (simp add: field_simps)
  qed
  have p: "0 < (2::real) powi e" by simp
  define D where "D = R * 2 ^ k - a"
  have rv: "dbl_val (round_double d) = real_of_int (sgn m * R * 2 ^ k) * 2 powi e"
    unfolding rd dbl_val_shift ..
  have "dbl_val (m, e) = real_of_int (sgn m * a) * 2 powi e"
    unfolding dbl_val_def a_def by (simp only: mult_sgn_abs fst_conv snd_conv)
  then have dv: "dbl_val d = real_of_int (sgn m * a) * 2 powi e"
    unfolding d [symmetric] .
  have "sgn m * R * 2 ^ k - sgn m * a = sgn m * D"
    by (simp add: D_def algebra_simps)
  then have "real_of_int (sgn m * R * 2 ^ k) - real_of_int (sgn m * a) = real_of_int (sgn m * D)"
    by (simp only: of_int_diff [symmetric])
  then have "dbl_val (round_double d) - dbl_val d = real_of_int (sgn m * D) * 2 powi e"
    unfolding rv dv by (simp only: left_diff_distrib [symmetric])
  then have "\<bar>dbl_val (round_double d) - dbl_val d\<bar> = real_of_int \<bar>sgn m * D\<bar> * 2 powi e"
    using p by (simp only: abs_scaled)
  also have "\<bar>sgn m * D\<bar> \<le> \<bar>D\<bar>"
    by (cases "m = 0") (simp_all add: abs_mult abs_sgn_eq)
  then have "real_of_int \<bar>sgn m * D\<bar> * 2 powi e \<le> real_of_int \<bar>D\<bar> * 2 powi e"
    using p by (simp only: of_int_le_iff mult_le_cancel_right_pos)
  also have "\<dots> \<le> real_of_int a / 2 ^ 53 * 2 powi e"
    using err p unfolding D_def by (simp only: mult_le_cancel_right_pos)
  also have "\<dots> = \<bar>dbl_val d\<bar> / 2 ^ 53"
    unfolding d by (simp add: dbl_val_def abs_mult a_def)
  finally show ?thesis .
qed

lemma round_double_sign:
  "0 \<le> fst d \<Longrightarrow> 0 \<le> fst (round_double d)"
  "fst d \<le> 0 \<Longrightarrow> fst (round_double d) \<le> 0"
  by (simp_all add: round_double_def round_half_even_nonneg sgn_if mult_nonneg_nonneg)

text \<open>Dropping the fraction rounds towards zero.\<close>

lemma trunc_int_floor:
  "trunc_int d = (if 0 \<le> fst d then \<lfloor>dbl_val d\<rfloor> else \<lceil>dbl_val d\<rceil>)"
proof (cases "0 \<le> snd d")
  case True
  then have "dbl_val d = real_of_int (fst d * 2 ^ nat (snd d))"
    by (simp add: dbl_val_def power_int_def)
  with True show ?thesis
    by (simp add: trunc_int_def del: of_int_mult of_int_power)
next
  case False
  define j where "j = nat (- snd d)"
  from False have v: "dbl_val d = real_of_int (fst d) / real_of_int (2 ^ j)"
    by (simp add: dbl_val_def power_int_def j_def field_simps)
  show ?thesis
  proof (cases "0 \<le> fst d")
    case True
    with False show ?thesis
      unfolding v floor_divide_of_int_eq
      by (simp add: trunc_int_def j_def sgn_if)
  next
    case neg: False
    have "\<lceil>dbl_val d\<rceil> = - \<lfloor>real_of_int (- fst d) / real_of_int (2 ^ j)\<rfloor>"
      unfolding v by (simp add: ceiling_def del: of_int_power)
    also have "\<dots> = - ((- fst d) div 2 ^ j)"
      unfolding floor_divide_of_int_eq ..
    finally show ?thesis
      using False neg by (simp add: trunc_int_def j_def sgn_if)
  qed
qed

lemma rounding_twice:
  fixes A B C D N :: real
  assumes "A * 2 ^ 53 \<le> C" "B * 2 ^ 53 \<le> N * (1 / 50)" "C \<le> (1 / 50) * N + B"
    "D \<le> A + B" "0 \<le> N"
  shows "D * 2 ^ 51 \<le> (1 / 50) * N"
proof -
  have p: "(2::real) ^ 53 = 9007199254740992" "(2::real) ^ 51 = 2251799813685248"
    by simp_all
  from assms show ?thesis
    unfolding p by linarith
qed

lemma rounding_thrice:
  fixes E F G H K L M :: real
  assumes "E * 2 ^ 51 \<le> (1 / 50) * M" "F * 2 ^ 53 \<le> G" "H = 1000 * E" "K = 20 * M"
    "G \<le> K + H" "L \<le> F + H" "K < 2 ^ 31" "0 \<le> M"
  shows "L < 1 / 2"
proof -
  have p: "(2::real) ^ 53 = 9007199254740992" "(2::real) ^ 51 = 2251799813685248"
    "(2::real) ^ 31 = 2147483648"
    by simp_all
  from assms show ?thesis
    unfolding p by linarith
qed

text \<open>The literal \<open>0.02\<close>: no double is nearer to 2/100 than half a unit of its mantissa.\<close>

lemma dbl_0_02_nearest:
  "\<bar>dbl_val dbl_0_02 - 0.02\<bar> \<le> 0.02 / 2 ^ 53"
  "2 ^ 52 \<le> fst dbl_0_02" "fst dbl_0_02 < 2 ^ 53"
  "\<bar>dbl_val dbl_0_02 - 0.02\<bar> \<le> 2 powi snd dbl_0_02 / 2"
  by (simp_all add: dbl_val_def dbl_0_02_def power_int_minus field_simps)

text \<open>
  The cost in milliseconds as the machine computes it, for the token sum \<open>n\<close>: within a
  relative \<open>2 ^ - 51\<close> of \<open>0.02 * n\<close>.
\<close>

lemma sim_ms_error:
  "\<bar>dbl_val (dbl_mult (dbl_of_int n) dbl_0_02) - 0.02 * real_of_int n\<bar>
     \<le> 0.02 * \<bar>real_of_int n\<bar> / 2 ^ 51"
proof -
  define c where "c = dbl_val dbl_0_02"
  define u where "u = real_of_int n * c"
  define v where "v = dbl_val (dbl_mult (dbl_of_int n) dbl_0_02)"
  define x where "x = 0.02 * real_of_int n"
  define N where "N = \<bar>real_of_int n\<bar>"
  have u: "dbl_val (fst (dbl_of_int n) * fst dbl_0_02, snd (dbl_of_int n) + snd dbl_0_02) = u"
    by (simp add: dbl_val_def dbl_of_int_def u_def c_def)
  from round_double_error
    [of "(fst (dbl_of_int n) * fst dbl_0_02, snd (dbl_of_int n) + snd dbl_0_02)"]
  have e1: "\<bar>v - u\<bar> \<le> \<bar>u\<bar> / 2 ^ 53"
    unfolding u dbl_mult_def v_def .
  have c1: "\<bar>c - 0.02\<bar> \<le> 0.02 / 2 ^ 53"
    unfolding c_def by (rule dbl_0_02_nearest)
  have "u - x = real_of_int n * (c - 0.02)"
    by (simp add: u_def x_def algebra_simps)
  then have "\<bar>u - x\<bar> = N * \<bar>c - 0.02\<bar>"
    by (simp only: abs_mult N_def)
  also have "\<dots> \<le> N * (0.02 / 2 ^ 53)"
    using c1 by (intro mult_left_mono) (simp_all add: N_def)
  finally have e2: "\<bar>u - x\<bar> \<le> N * (0.02 / 2 ^ 53)" .
  have ax: "\<bar>x\<bar> = (1 / 50) * N"
    by (simp add: x_def N_def abs_mult)
  have t1: "\<bar>u\<bar> \<le> \<bar>x\<bar> + \<bar>u - x\<bar>"
    using abs_triangle_ineq [of x "u - x"] by simp
  have t2: "\<bar>v - x\<bar> \<le> \<bar>v - u\<bar> + \<bar>u - x\<bar>"
    using abs_triangle_ineq [of "v - u" "u - x"] by simp
  have N: "0 \<le> N" by (simp add: N_def)
  from e1 have e1': "\<bar>v - u\<bar> * 2 ^ 53 \<le> \<bar>u\<bar>"
    by (simp add: field_simps)
  from e2 have e2': "\<bar>u - x\<bar> * 2 ^ 53 \<le> N * (1 / 50)"
    by (simp add: field_simps)
  from t1 have t1': "\<bar>u\<bar> \<le> (1 / 50) * N + \<bar>u - x\<bar>"
    unfolding ax .
  from rounding_twice [OF e1' e2' t1' t2 N] have "\<bar>v - x\<bar> * 2 ^ 51 \<le> (1 / 50) * N" .
  then show ?thesis
    unfolding v_def x_def N_def by (simp add: field_simps)
qed

lemma sim_ms_sign:
  "0 \<le> n \<Longrightarrow> 0 \<le> fst (dbl_mult (dbl_of_int n) dbl_0_02)"
  "n \<le> 0 \<Longrightarrow> fst (dbl_mult (dbl_of_int n) dbl_0_02) \<le> 0"
  by (simp_all add: dbl_mult_def dbl_of_int_def dbl_0_02_def round_double_sign
      mult_nonpos_nonneg)

text \<open>
  The argument of \<open>sleep_for\<close> for the token sum \<open>n\<close>, where \<open>20 * n\<close> is an \<open>int\<close>: 20
  microseconds per token, less at most one microsecond in absolute value.
\<close>

lemma sleep_near:
  assumes "\<bar>20 * n\<bar> < 2 ^ 31"
  shows "\<bar>static_cast_int (dbl_mult (dbl_mult (dbl_of_int n) dbl_0_02) (dbl_of_int 1000))
            - 20 * n\<bar> \<le> 1
    \<and> \<bar>static_cast_int (dbl_mult (dbl_mult (dbl_of_int n) dbl_0_02) (dbl_of_int 1000))\<bar>
        \<le> \<bar>20 * n\<bar>"
proof -
  define c where "c = dbl_mult (dbl_of_int n) dbl_0_02"
  define v1 where "v1 = dbl_val c"
  define p where "p = dbl_mult c (dbl_of_int 1000)"
  define v2 where "v2 = dbl_val p"
  define N where "N = real_of_int n"
  from assms have "real_of_int \<bar>20 * n\<bar> < real_of_int (2 ^ 31)"
    by (simp only: of_int_less_iff)
  then have r: "\<bar>20 * N\<bar> < 2 ^ 31"
    unfolding N_def by simp
  from sim_ms_error [of n] have e1: "\<bar>v1 - 0.02 * N\<bar> * 2 ^ 51 \<le> (1 / 50) * \<bar>N\<bar>"
    by (simp add: v1_def c_def N_def field_simps)
  have w: "dbl_val (fst c * fst (dbl_of_int 1000), snd c + snd (dbl_of_int 1000)) = v1 * 1000"
    by (simp add: dbl_val_def dbl_of_int_def v1_def)
  from round_double_error [of "(fst c * fst (dbl_of_int 1000), snd c + snd (dbl_of_int 1000))"]
  have "\<bar>v2 - v1 * 1000\<bar> \<le> \<bar>v1 * 1000\<bar> / 2 ^ 53"
    unfolding w v2_def p_def dbl_mult_def .
  then have e2: "\<bar>v2 - v1 * 1000\<bar> * 2 ^ 53 \<le> \<bar>v1 * 1000\<bar>"
    by (simp add: field_simps)
  have "v1 * 1000 - 20 * N = 1000 * (v1 - 0.02 * N)"
    by simp
  then have "\<bar>v1 * 1000 - 20 * N\<bar> = \<bar>1000\<bar> * \<bar>v1 - 0.02 * N\<bar>"
    by (simp only: abs_mult)
  then have s1: "\<bar>v1 * 1000 - 20 * N\<bar> = 1000 * \<bar>v1 - 0.02 * N\<bar>"
    by simp
  have s2: "\<bar>20 * N\<bar> = 20 * \<bar>N\<bar>"
    by (simp add: abs_mult)
  have t1: "\<bar>v1 * 1000\<bar> \<le> \<bar>20 * N\<bar> + \<bar>v1 * 1000 - 20 * N\<bar>"
    using abs_triangle_ineq [of "20 * N" "v1 * 1000 - 20 * N"] by simp
  have t2: "\<bar>v2 - 20 * N\<bar> \<le> \<bar>v2 - v1 * 1000\<bar> + \<bar>v1 * 1000 - 20 * N\<bar>"
    using abs_triangle_ineq [of "v2 - v1 * 1000" "v1 * 1000 - 20 * N"] by simp
  have n0: "0 \<le> \<bar>N\<bar>" by simp
  from rounding_thrice [OF e1 e2 s1 s2 t1 t2 r n0] have near: "\<bar>v2 - 20 * N\<bar> < 1 / 2" .
  have t: "trunc_int p = (if 0 \<le> fst p then \<lfloor>v2\<rfloor> else \<lceil>v2\<rceil>)"
    unfolding v2_def by (rule trunc_int_floor)
  have cs: "0 \<le> n \<Longrightarrow> 0 \<le> fst c" "n \<le> 0 \<Longrightarrow> fst c \<le> 0"
    unfolding c_def by (simp_all add: sim_ms_sign)
  have sp: "0 \<le> n \<Longrightarrow> 0 \<le> fst p" "n \<le> 0 \<Longrightarrow> fst p \<le> 0"
    using cs
    by (simp_all add: p_def dbl_mult_def dbl_of_int_def round_double_sign mult_nonpos_nonneg)
  have v2s: "0 \<le> fst p \<Longrightarrow> 0 \<le> v2" "fst p \<le> 0 \<Longrightarrow> v2 \<le> 0"
    by (simp_all add: v2_def dbl_val_def mult_nonpos_nonneg)
  have b: "\<bar>trunc_int p - 20 * n\<bar> \<le> 1 \<and> \<bar>trunc_int p\<bar> \<le> \<bar>20 * n\<bar>"
  proof (cases "0 \<le> n")
    case True
    with sp have f: "0 \<le> fst p" by simp
    with t have tf: "trunc_int p = \<lfloor>v2\<rfloor>" by simp
    from v2s f have "0 \<le> v2" by simp
    then have l0: "0 \<le> \<lfloor>v2\<rfloor>" by simp
    from near have "real_of_int (20 * n - 1) \<le> v2" "v2 < real_of_int (20 * n + 1)"
      unfolding abs_less_iff by (simp_all add: N_def)
    then have "20 * n - 1 \<le> \<lfloor>v2\<rfloor>" "\<lfloor>v2\<rfloor> < 20 * n + 1"
      by (simp_all only: le_floor_iff floor_less_iff)
    with l0 True show ?thesis
      unfolding tf by simp
  next
    case False
    then have n: "n \<le> 0" "n < 0" by simp_all
    from n have "N \<le> - 1"
      unfolding N_def by linarith
    with near have v2n: "v2 < 0"
      unfolding abs_less_iff by simp
    with v2s have "\<not> 0 \<le> fst p" by auto
    with t have tf: "trunc_int p = \<lceil>v2\<rceil>" by simp
    from v2n have l0: "\<lceil>v2\<rceil> \<le> 0" by (simp add: ceiling_le_zero)
    from near have "real_of_int (20 * n - 1) < v2" "v2 \<le> real_of_int (20 * n + 1)"
      unfolding abs_less_iff by (simp_all add: N_def)
    then have "20 * n - 1 < \<lceil>v2\<rceil>" "\<lceil>v2\<rceil> \<le> 20 * n + 1"
      by (simp_all only: less_ceiling_iff ceiling_le_iff)
    with l0 n show ?thesis
      unfolding tf by simp
  qed
  with assms have "- (2 ^ 31) \<le> trunc_int p \<and> trunc_int p < 2 ^ 31"
    by linarith
  then have "static_cast_int p = trunc_int p"
    by (simp add: static_cast_int_def)
  with b show ?thesis
    unfolding p_def c_def by simp
qed

text \<open>The definitions by which a product of doubles is computed on numerals.\<close>

lemmas dbl_eval =
  sleep_micros_def sim_ms_double_def total_tokens_def dbl_mult_def dbl_of_int_def dbl_0_02_def
  round_double_def bit_len.simps round_half_even_def static_cast_int_def trunc_int_def

lemma sleep_micros_100: "sleep_micros [request i p 100 t] = 2000"
  by (simp add: dbl_eval)

text \<open>
  C8, as the specification states it, fails: the cost is not a linear function of the
  sum of the sizes. A batch of 100 tokens is processed for 2000 microseconds, 20 per
  token; a batch of 803 tokens for 16059, not 16060: the product \<open>803 * 0.02\<close> is the
  double just below 16.06, and so is its product with 1000 below 16060. A batch of
  2147483647 tokens gives a product outside the range of \<open>int\<close>, and the argument of
  \<open>sleep_for\<close> is \<open>INT_MIN\<close>. And the sum is kept in an \<open>int\<close>: two requests of
  1073741824 tokens each leave \<open>INT_MIN\<close> in the accumulator, and a negative cost.
\<close>

theorem sleep_not_linear_in_size_sum:
  "sleep_micros [request 0 1 100 0] = 20 * 100
   \<and> sleep_micros [request 0 1 803 0] = 16059
   \<and> sleep_micros [request 0 1 803 0] \<noteq> 20 * 803
   \<and> sim_ms_double [request 0 1 803 0] = (4520488125973135, - 48)
   \<and> dbl_val (sim_ms_double [request 0 1 803 0]) < 0.02 * 803
   \<and> sleep_micros [request 0 1 2147483647 0] = - 2147483648
   \<and> sint (total_tokens [request 0 1 1073741824 0, request 1 1 1073741824 0]) = - 2147483648
   \<and> sim_ms [request 0 1 1073741824 0, request 1 1 1073741824 0] < 0"
proof -
  have a: "sleep_micros [request 0 1 803 0] = 16059"
    by (simp add: dbl_eval)
  have b: "sim_ms_double [request 0 1 803 0] = (4520488125973135, - 48)"
    by (simp add: dbl_eval)
  have c: "dbl_val (4520488125973135, - 48) < 0.02 * 803"
    by (simp add: dbl_val_def power_int_minus field_simps)
  have d: "sleep_micros [request 0 1 2147483647 0] = - 2147483648"
    by (simp add: dbl_eval)
  have e: "sint (total_tokens [request 0 1 1073741824 0, request 1 1 1073741824 0])
      = - 2147483648"
    by (simp add: total_tokens_def)
  then have f: "sim_ms [request 0 1 1073741824 0, request 1 1 1073741824 0] < 0"
    by (simp add: sim_ms_def)
  from a b c d e f show ?thesis
    by (simp add: sleep_micros_100)
qed

text \<open>
  C8, amended: the cost of a batch is a function of the sum of its sizes as the \<open>int\<close>
  accumulator holds it, which is the sum of the sizes whenever that is an \<open>int\<close>, and
  the function is the same for every worker in every state: a worker at line 137 with
  a batch that is not empty sleeps for \<open>sleep_micros\<close> of that batch, the two double
  products of the sum truncated to an \<open>int\<close>. Two batches with the same sum cost the
  same, however the sizes are spread over the requests. The cost is linear in the sum
  up to the rounding of \<open>double\<close>: in milliseconds it is within a relative \<open>2 ^ - 51\<close>
  of 0.02 per token, and the argument of \<open>sleep_for\<close> is 20 microseconds per token less
  at most one microsecond in absolute value, as long as 20 times the sum is an \<open>int\<close>.
\<close>

theorem cost_depends_on_size_sum_only:
  "(i < length (workers s) \<and> workers s ! i = W_Batch b \<and> b \<noteq> []
      \<longrightarrow> worker_step i s = Some (set_worker i (W_Sleep b (sleep_micros b)) s))
   \<and> sleep_micros b
       = static_cast_int
           (dbl_mult (dbl_mult (dbl_of_int (sint (\<Sum>r\<leftarrow>b. token_count r))) dbl_0_02)
              (dbl_of_int 1000))
   \<and> sim_ms_double b = dbl_mult (dbl_of_int (sint (\<Sum>r\<leftarrow>b. token_count r))) dbl_0_02
   \<and> ((\<Sum>r\<leftarrow>b. token_count r) = (\<Sum>r\<leftarrow>b'. token_count r)
        \<longrightarrow> sleep_micros b = sleep_micros b' \<and> sim_ms_double b = sim_ms_double b'
            \<and> sim_ms b = sim_ms b')
   \<and> (- (2 ^ 31) \<le> (\<Sum>r\<leftarrow>b. sint (token_count r)) \<and> (\<Sum>r\<leftarrow>b. sint (token_count r)) < 2 ^ 31
        \<longrightarrow> sint (\<Sum>r\<leftarrow>b. token_count r) = (\<Sum>r\<leftarrow>b. sint (token_count r)))
   \<and> \<bar>dbl_val (sim_ms_double b) - 0.02 * real_of_int (sint (\<Sum>r\<leftarrow>b. token_count r))\<bar>
       \<le> 0.02 * \<bar>real_of_int (sint (\<Sum>r\<leftarrow>b. token_count r))\<bar> / 2 ^ 51
   \<and> (\<bar>20 * sint (\<Sum>r\<leftarrow>b. token_count r)\<bar> < 2 ^ 31
        \<longrightarrow> \<bar>sleep_micros b - 20 * sint (\<Sum>r\<leftarrow>b. token_count r)\<bar> \<le> 1
            \<and> \<bar>sleep_micros b\<bar> \<le> \<bar>20 * sint (\<Sum>r\<leftarrow>b. token_count r)\<bar>)"
proof (intro conjI impI)
  assume "i < length (workers s) \<and> workers s ! i = W_Batch b \<and> b \<noteq> []"
  then show "worker_step i s = Some (set_worker i (W_Sleep b (sleep_micros b)) s)"
    by (simp add: worker_step_def)
next
  show "sleep_micros b
       = static_cast_int
           (dbl_mult (dbl_mult (dbl_of_int (sint (\<Sum>r\<leftarrow>b. token_count r))) dbl_0_02)
              (dbl_of_int 1000))"
    by (simp add: sleep_micros_def sim_ms_double_def total_tokens_sum)
  show "sim_ms_double b = dbl_mult (dbl_of_int (sint (\<Sum>r\<leftarrow>b. token_count r))) dbl_0_02"
    by (simp add: sim_ms_double_def total_tokens_sum)
  show "\<bar>dbl_val (sim_ms_double b) - 0.02 * real_of_int (sint (\<Sum>r\<leftarrow>b. token_count r))\<bar>
       \<le> 0.02 * \<bar>real_of_int (sint (\<Sum>r\<leftarrow>b. token_count r))\<bar> / 2 ^ 51"
    unfolding sim_ms_double_def total_tokens_sum by (rule sim_ms_error)
next
  assume "(\<Sum>r\<leftarrow>b. token_count r) = (\<Sum>r\<leftarrow>b'. token_count r)"
  then have "total_tokens b = total_tokens b'"
    by (simp add: total_tokens_sum)
  then show "sleep_micros b = sleep_micros b'" and "sim_ms_double b = sim_ms_double b'"
    and "sim_ms b = sim_ms b'"
    by (simp_all add: sleep_micros_def sim_ms_double_def sim_ms_def)
next
  assume "- (2 ^ 31) \<le> (\<Sum>r\<leftarrow>b. sint (token_count r)) \<and> (\<Sum>r\<leftarrow>b. sint (token_count r)) < 2 ^ 31"
  then have "sint (total_tokens b) = (\<Sum>r\<leftarrow>b. sint (token_count r))"
    by (intro sint_total_tokens) simp_all
  then show "sint (\<Sum>r\<leftarrow>b. token_count r) = (\<Sum>r\<leftarrow>b. sint (token_count r))"
    by (simp add: total_tokens_sum)
next
  assume "\<bar>20 * sint (\<Sum>r\<leftarrow>b. token_count r)\<bar> < 2 ^ 31"
  from sleep_near [OF this]
  show "\<bar>sleep_micros b - 20 * sint (\<Sum>r\<leftarrow>b. token_count r)\<bar> \<le> 1"
    and "\<bar>sleep_micros b\<bar> \<le> \<bar>20 * sint (\<Sum>r\<leftarrow>b. token_count r)\<bar>"
    by (simp_all add: sleep_micros_def sim_ms_double_def total_tokens_sum)
qed

theorem cost_depends_on_size_sum_only_witness:
  "worker_step 0 (worker_asleep\<lparr> workers := [W_Batch [request 0 1 100 0, request 1 1 50 0]] \<rparr>)
     = Some (worker_asleep
         \<lparr> workers := [W_Sleep [request 0 1 100 0, request 1 1 50 0] 3000] \<rparr>)
   \<and> sleep_micros [request 0 1 100 0, request 1 1 50 0] = 3000
   \<and> sleep_micros [request 2 1 75 0, request 3 1 75 0] = 3000
   \<and> sim_ms [request 0 1 100 0, request 1 1 50 0] = sim_ms [request 2 1 75 0, request 3 1 75 0]
   \<and> \<bar>sleep_micros [request 0 1 803 0] - 20 * 803\<bar> \<le> 1
   \<and> sim_ms_double [request 0 1 3 0] = (8646911284551352, - 57)
   \<and> sleep_micros [request 0 1 (- 803) 0] = - 16059"
proof -
  let ?b = "[request 0 1 100 0, request 1 1 50 0]"
  let ?b' = "[request 2 1 75 0, request 3 1 75 0]"
  let ?s = "worker_asleep\<lparr> workers := [W_Batch ?b] \<rparr>"
  have v: "sleep_micros ?b = 3000"
    by (simp add: dbl_eval)
  have w: "0 < length (workers ?s) \<and> workers ?s ! 0 = W_Batch ?b \<and> ?b \<noteq> []"
    by simp
  have e: "(\<Sum>r\<leftarrow>?b. token_count r) = (\<Sum>r\<leftarrow>?b'. token_count r)"
    by simp
  have r: "\<bar>20 * sint (\<Sum>r\<leftarrow>[request 0 1 803 0]. token_count r)\<bar> < 2 ^ 31"
    by simp
  have t: "sim_ms_double [request 0 1 3 0] = (8646911284551352, - 57)"
    "sleep_micros [request 0 1 (- 803) 0] = - 16059"
    by (simp_all add: dbl_eval)
  from cost_depends_on_size_sum_only [of 0 ?s ?b ?b'] w e
  have "worker_step 0 ?s = Some (set_worker 0 (W_Sleep ?b (sleep_micros ?b)) ?s)"
    and "sleep_micros ?b = sleep_micros ?b'" and "sim_ms ?b = sim_ms ?b'"
    by blast+
  moreover from cost_depends_on_size_sum_only [of 0 ?s "[request 0 1 803 0]" "[]"] r
  have "\<bar>sleep_micros [request 0 1 803 0] - 20 * sint (\<Sum>r\<leftarrow>[request 0 1 803 0]. token_count r)\<bar> \<le> 1"
    by blast
  ultimately show ?thesis
    using v t by (simp add: set_worker_def)
qed

section \<open>The statistics report\<close>

lemma pct_index_in_range:
  assumes "lat \<noteq> []" and "0 \<le> p" and "p < 1"
  shows "nat \<lfloor>p * real (length lat)\<rfloor> < length lat"
proof -
  from assms have "p * real (length lat) < real (length lat)"
    by simp
  then have "\<lfloor>p * real (length lat)\<rfloor> < int (length lat)"
    by linarith
  with assms show ?thesis
    by (simp add: nat_less_iff)
qed

lemma pct_sort:
  assumes "lat \<noteq> []" and "0 \<le> p" and "p < 1"
  shows "pct (sort lat) p = sort lat ! nat \<lfloor>p * real (length lat)\<rfloor>"
proof -
  from pct_index_in_range [OF assms]
  have "min (nat \<lfloor>p * real (length lat)\<rfloor>) (length lat - 1) = nat \<lfloor>p * real (length lat)\<rfloor>"
    by simp
  moreover from assms have "sort lat \<noteq> []"
    by (metis length_sort length_0_conv)
  ultimately show ?thesis
    by (simp add: pct_def)
qed

text \<open>
  C3: for a non-empty list of samples and \<open>0 \<le> p < 1\<close>, the index \<open>floor (p * N)\<close> lies
  below \<open>N\<close> and the percentile is the element of the ascending samples at that index;
  so are the three percentiles of the report. On the samples 1 to 10, \<open>p = 0.5\<close> gives 6
  and \<open>p = 0.95\<close> gives 10.
\<close>

theorem pct_is_indexed_sample:
  "(lat \<noteq> [] \<and> 0 \<le> p \<and> p < 1
      \<longrightarrow> nat \<lfloor>p * real (length lat)\<rfloor> < length lat
        \<and> pct (sort lat) p = sort lat ! nat \<lfloor>p * real (length lat)\<rfloor>)
   \<and> (latencies s \<noteq> []
      \<longrightarrow> stat_p50 (print_stats now s)
            = sort (latencies s) ! nat \<lfloor>0.50 * real (length (latencies s))\<rfloor>
        \<and> stat_p95 (print_stats now s)
            = sort (latencies s) ! nat \<lfloor>0.95 * real (length (latencies s))\<rfloor>
        \<and> stat_p99 (print_stats now s)
            = sort (latencies s) ! nat \<lfloor>0.99 * real (length (latencies s))\<rfloor>)
   \<and> pct (sort [1, 2, 3, 4, 5, 6, 7, 8, 9, 10]) 0.50 = 6
   \<and> pct (sort [1, 2, 3, 4, 5, 6, 7, 8, 9, 10]) 0.95 = 10"
proof (intro conjI impI)
  assume "lat \<noteq> [] \<and> 0 \<le> p \<and> p < 1"
  then show "nat \<lfloor>p * real (length lat)\<rfloor> < length lat"
    and "pct (sort lat) p = sort lat ! nat \<lfloor>p * real (length lat)\<rfloor>"
    by (simp_all add: pct_index_in_range pct_sort)
next
  assume "latencies s \<noteq> []"
  then show "stat_p50 (print_stats now s)
      = sort (latencies s) ! nat \<lfloor>0.50 * real (length (latencies s))\<rfloor>"
    and "stat_p95 (print_stats now s)
      = sort (latencies s) ! nat \<lfloor>0.95 * real (length (latencies s))\<rfloor>"
    and "stat_p99 (print_stats now s)
      = sort (latencies s) ! nat \<lfloor>0.99 * real (length (latencies s))\<rfloor>"
    by (simp_all add: print_stats_def Let_def pct_sort)
next
  show "pct (sort [1, 2, 3, 4, 5, 6, 7, 8, 9, 10]) 0.50 = 6"
    by (simp add: pct_def)
  show "pct (sort [1, 2, 3, 4, 5, 6, 7, 8, 9, 10]) 0.95 = 10"
    by (simp add: pct_def)
qed

theorem pct_is_indexed_sample_witness:
  "nat \<lfloor>0.99 * real (length [30, 10, 20 :: real])\<rfloor> = 2
   \<and> pct (sort [30, 10, 20]) 0.99 = 30
   \<and> stat_p50 (print_stats 5 ((new_scheduler 1 8)\<lparr> latencies := [30, 10, 20] \<rparr>)) = 20
   \<and> stat_p95 (print_stats 5 ((new_scheduler 1 8)\<lparr> latencies := [30, 10, 20] \<rparr>)) = 30
   \<and> stat_p99 (print_stats 5 ((new_scheduler 1 8)\<lparr> latencies := [30, 10, 20] \<rparr>)) = 30"
proof -
  let ?s = "(new_scheduler 1 8)\<lparr> latencies := [30, 10, 20] \<rparr>"
  have h: "[30, 10, 20 :: real] \<noteq> [] \<and> (0 :: real) \<le> 0.99 \<and> (0.99 :: real) < 1"
    by simp
  have l: "latencies ?s \<noteq> []"
    by simp
  have i: "nat \<lfloor>0.99 * real (length [30, 10, 20 :: real])\<rfloor> = 2"
    "nat \<lfloor>0.50 * real (length (latencies ?s))\<rfloor> = 1"
    "nat \<lfloor>0.95 * real (length (latencies ?s))\<rfloor> = 2"
    "nat \<lfloor>0.99 * real (length (latencies ?s))\<rfloor> = 2"
    by simp_all
  have v: "sort [30, 10, 20 :: real] = [10, 20, 30]" "sort (latencies ?s) = [10, 20, 30]"
    by simp_all
  from pct_is_indexed_sample [of "[30, 10, 20]" "0.99" ?s 5] h l
  have "pct (sort [30, 10, 20]) 0.99
      = sort [30, 10, 20] ! nat \<lfloor>0.99 * real (length [30, 10, 20 :: real])\<rfloor>"
    and "stat_p50 (print_stats 5 ?s)
      = sort (latencies ?s) ! nat \<lfloor>0.50 * real (length (latencies ?s))\<rfloor>"
    and "stat_p95 (print_stats 5 ?s)
      = sort (latencies ?s) ! nat \<lfloor>0.95 * real (length (latencies ?s))\<rfloor>"
    and "stat_p99 (print_stats 5 ?s)
      = sort (latencies ?s) ! nat \<lfloor>0.99 * real (length (latencies ?s))\<rfloor>"
    by blast+
  then show ?thesis
    unfolding i v by simp
qed

text \<open>
  C10: with no latency sample the three percentiles of the report are 0, and with a
  processed count of 0 the throughput is 0, the division not being made: also when no
  time has elapsed.
\<close>

theorem empty_report_is_zero:
  "(latencies s = []
      \<longrightarrow> stat_p50 (print_stats now s) = 0 \<and> stat_p95 (print_stats now s) = 0
        \<and> stat_p99 (print_stats now s) = 0)
   \<and> (total_processed s = 0 \<longrightarrow> stat_throughput (print_stats now s) = Some 0)"
  by (simp add: print_stats_def Let_def pct_def)

theorem empty_report_is_zero_witness:
  "stat_p50 (print_stats 0 (new_scheduler 4 8)) = 0
   \<and> stat_p95 (print_stats 0 (new_scheduler 4 8)) = 0
   \<and> stat_p99 (print_stats 0 (new_scheduler 4 8)) = 0
   \<and> stat_throughput (print_stats 0 (new_scheduler 4 8)) = Some 0
   \<and> stat_elapsed (print_stats 0 (new_scheduler 4 8)) = 0"
proof -
  have h: "latencies (new_scheduler 4 8) = []" "total_processed (new_scheduler 4 8) = 0"
    by (simp_all add: new_scheduler_def)
  have e: "stat_elapsed (print_stats 0 (new_scheduler 4 8)) = 0"
    by (simp add: print_stats_def Let_def new_scheduler_def)
  from empty_report_is_zero [of "new_scheduler 4 8" 0] h e show ?thesis
    by blast
qed

section \<open>The steps of the threads, case by case\<close>

lemma worker_stepE [consumes 1, case_names enter abort top woken ready wait leave drain return unlock skip sleep wake latlock sample latunlock count]:
  assumes "worker_step i s = Some s'"
  obtains
    (enter) "i < length (workers s)" "workers s ! i = W_Entry"
      "\<not> batch_size (sched s) <s 0" "s' = set_worker i W_Top s"
  | (abort) "i < length (workers s)" "workers s ! i = W_Entry"
      "batch_size (sched s) <s 0" "s' = s\<lparr> aborted := True \<rparr>"
  | (top) "i < length (workers s)" "workers s ! i = W_Top" "mu s = None"
      "s' = set_worker i W_Locked (s\<lparr> mu := Some (WorkerThread i) \<rparr>)"
  | (woken) "i < length (workers s)" "workers s ! i = W_Woken" "mu s = None"
      "s' = set_worker i W_Locked (s\<lparr> mu := Some (WorkerThread i) \<rparr>)"
  | (ready) "i < length (workers s)" "workers s ! i = W_Locked"
      "queue (sched s) \<noteq> [] \<or> shutdown (sched s)"
      "s' = set_worker i W_Check s"
  | (wait) "i < length (workers s)" "workers s ! i = W_Locked"
      "queue (sched s) = []" "\<not> shutdown (sched s)"
      "s' = set_worker i W_Waiting (s\<lparr> mu := None \<rparr>)"
  | (leave) "i < length (workers s)" "workers s ! i = W_Check"
      "shutdown (sched s)" "queue (sched s) = []"
      "s' = set_worker i W_Break s"
  | (drain) "i < length (workers s)" "workers s ! i = W_Check"
      "\<not> (shutdown (sched s) \<and> queue (sched s) = [])"
      "s' = set_worker i
         (W_Unlock (fst (drain_batch (batch_size (sched s)) (queue (sched s)))))
         (s\<lparr> sched := (sched s)
              \<lparr> queue := snd (drain_batch (batch_size (sched s)) (queue (sched s))) \<rparr> \<rparr>)"
  | (return) "i < length (workers s)" "workers s ! i = W_Break"
      "s' = set_worker i W_Done (s\<lparr> mu := None \<rparr>)"
  | (unlock) b where "i < length (workers s)" "workers s ! i = W_Unlock b"
      "s' = set_worker i (W_Batch b) (s\<lparr> mu := None \<rparr>)"
  | (skip) "i < length (workers s)" "workers s ! i = W_Batch []"
      "s' = set_worker i W_Top s"
  | (sleep) b where "i < length (workers s)" "workers s ! i = W_Batch b" "b \<noteq> []"
      "s' = set_worker i (W_Sleep b (sleep_micros b)) s"
  | (wake) b us where "i < length (workers s)" "workers s ! i = W_Sleep b us"
      "s' = set_worker i (W_LatLock b (clock s)) s"
  | (latlock) b t where "i < length (workers s)" "workers s ! i = W_LatLock b t"
      "lat_mu s = None"
      "s' = set_worker i (W_Record b t) (s\<lparr> lat_mu := Some (WorkerThread i) \<rparr>)"
  | (sample) b t where "i < length (workers s)" "workers s ! i = W_Record b t"
      "s' = set_worker i (W_LatUnlock b)
         (s\<lparr> sched := (sched s)\<lparr> latencies := record_latencies t b (latencies (sched s)) \<rparr>,
            recorded := recorded s @ b \<rparr>)"
  | (latunlock) b where "i < length (workers s)" "workers s ! i = W_LatUnlock b"
      "s' = set_worker i (W_Count b) (s\<lparr> lat_mu := None \<rparr>)"
  | (count) b where "i < length (workers s)" "workers s ! i = W_Count b"
      "s' = set_worker i W_Top
         (s\<lparr> sched := (sched s)
              \<lparr> total_processed := total_processed (sched s) + word_of_nat (length b) \<rparr> \<rparr>)"
proof -
  from assms have i: "i < length (workers s)"
    by (auto simp: worker_step_def split: if_splits)
  show thesis
  proof (cases "workers s ! i")
    case W_Entry with assms i enter abort show ?thesis
      by (auto simp: worker_step_def split: if_splits)
  next
    case W_Top with assms i top show ?thesis
      by (auto simp: worker_step_def split: if_splits)
  next
    case W_Locked with assms i ready wait show ?thesis
      by (auto simp: worker_step_def split: if_splits)
  next
    case W_Waiting with assms i show ?thesis
      by (auto simp: worker_step_def split: if_splits)
  next
    case W_Woken with assms i woken show ?thesis
      by (auto simp: worker_step_def split: if_splits)
  next
    case W_Check with assms i leave drain show ?thesis
      by (auto simp: worker_step_def split: if_splits)
  next
    case W_Break with assms i return show ?thesis
      by (auto simp: worker_step_def split: if_splits)
  next
    case (W_Unlock b) with assms i unlock show ?thesis
      by (auto simp: worker_step_def split: if_splits)
  next
    case (W_Batch b) with assms i skip sleep show ?thesis
      by (auto simp: worker_step_def split: if_splits)
  next
    case (W_Sleep b us) with assms i wake show ?thesis
      by (auto simp: worker_step_def split: if_splits)
  next
    case (W_LatLock b t) with assms i latlock show ?thesis
      by (auto simp: worker_step_def split: if_splits)
  next
    case (W_Record b t) with assms i sample show ?thesis
      by (auto simp: worker_step_def split: if_splits)
  next
    case (W_LatUnlock b) with assms i latunlock show ?thesis
      by (auto simp: worker_step_def split: if_splits)
  next
    case (W_Count b) with assms i count show ?thesis
      by (auto simp: worker_step_def split: if_splits)
  next
    case W_Done with assms i show ?thesis
      by (auto simp: worker_step_def split: if_splits)
  qed
qed

lemma main_stepE [consumes 1, case_names start spawn spawned call shut enqlock push enqunlock notify_none notify_one shutlock flag shutunlock notify_all join]:
  assumes "main_step k s = Some s'"
  obtains
    (start) "main s = M_Begin"
      "s' = s\<lparr> sched := (sched s)\<lparr> start_time := clock s \<rparr>, main := M_Spawn 0 \<rparr>"
  | (spawn) n where "main s = M_Spawn n" "int n < sint (num_workers (sched s))"
      "s' = s\<lparr> workers := workers s @ [W_Entry], main := M_Spawn (Suc n) \<rparr>"
  | (spawned) n where "main s = M_Spawn n" "\<not> int n < sint (num_workers (sched s))"
      "s' = s\<lparr> main := M_Idle \<rparr>"
  | (call) req rest where "main s = M_Idle" "to_submit s = req # rest"
      "s' = s\<lparr> to_submit := rest, main := M_EnqLock req (clock s) \<rparr>"
  | (shut) "main s = M_Idle" "to_submit s = []" "s' = s\<lparr> main := M_ShutLock \<rparr>"
  | (enqlock) req now where "main s = M_EnqLock req now" "mu s = None"
      "s' = s\<lparr> mu := Some MainThread, main := M_EnqPush req now \<rparr>"
  | (push) req now where "main s = M_EnqPush req now"
      "s' = s\<lparr> sched := enqueue now req (sched s),
              submitted := submitted s @ [req\<lparr> enqueue_time_ms := now \<rparr>],
              main := M_EnqUnlock \<rparr>"
  | (enqunlock) "main s = M_EnqUnlock" "s' = s\<lparr> mu := None, main := M_EnqNotify \<rparr>"
  | (notify_none) "main s = M_EnqNotify" "W_Waiting \<notin> set (workers s)"
      "s' = s\<lparr> main := M_Idle \<rparr>"
  | (notify_one) "main s = M_EnqNotify" "k < length (workers s)" "workers s ! k = W_Waiting"
      "s' = s\<lparr> workers := (workers s)[k := W_Woken], main := M_Idle \<rparr>"
  | (shutlock) "main s = M_ShutLock" "mu s = None"
      "s' = s\<lparr> mu := Some MainThread, main := M_ShutSet \<rparr>"
  | (flag) "main s = M_ShutSet"
      "s' = s\<lparr> sched := (sched s)\<lparr> shutdown := True \<rparr>, main := M_ShutUnlock \<rparr>"
  | (shutunlock) "main s = M_ShutUnlock" "s' = s\<lparr> mu := None, main := M_ShutNotify \<rparr>"
  | (notify_all) "main s = M_ShutNotify"
      "s' = s\<lparr> workers := map (\<lambda>w. if w = W_Waiting then W_Woken else w) (workers s),
              main := M_Join \<rparr>"
  | (join) "main s = M_Join" "list_all (\<lambda>w. w = W_Done) (workers s)"
      "s' = s\<lparr> main := M_Done \<rparr>"
proof (cases "main s")
  case M_Begin with assms start show ?thesis
    by (auto simp: main_step_def)
next
  case (M_Spawn n) with assms spawn spawned show ?thesis
    by (auto simp: main_step_def split: if_splits)
next
  case M_Idle with assms call shut show ?thesis
    by (auto simp: main_step_def split: list.splits)
next
  case (M_EnqLock req now) with assms enqlock show ?thesis
    by (auto simp: main_step_def split: if_splits)
next
  case (M_EnqPush req now) with assms push show ?thesis
    by (auto simp: main_step_def)
next
  case M_EnqUnlock with assms enqunlock show ?thesis
    by (auto simp: main_step_def)
next
  case M_EnqNotify with assms notify_none notify_one show ?thesis
    by (auto simp: main_step_def split: if_splits)
next
  case M_ShutLock with assms shutlock show ?thesis
    by (auto simp: main_step_def split: if_splits)
next
  case M_ShutSet with assms flag show ?thesis
    by (auto simp: main_step_def)
next
  case M_ShutUnlock with assms shutunlock show ?thesis
    by (auto simp: main_step_def)
next
  case M_ShutNotify with assms notify_all show ?thesis
    by (auto simp: main_step_def)
next
  case M_Join with assms join show ?thesis
    by (auto simp: main_step_def split: if_splits)
next
  case M_Done with assms show ?thesis
    by (auto simp: main_step_def)
qed


lemma stepE [consumes 1, case_names Main Worker Spurious Tick Exhausted]:
  assumes "step e s = Some s'"
  obtains
    (Main) k where "e = Main k" "main_step k s = Some s'"
  | (Worker) i where "e = Worker i" "worker_step i s = Some s'"
  | (Spurious) i where "e = Spurious i" "i < length (workers s)" "workers s ! i = W_Waiting"
      "s' = set_worker i W_Woken s"
  | (Tick) d where "e = Tick d" "s' = s\<lparr> clock := clock s + d \<rparr>"
  | (Exhausted) t where "e = Exhausted t" "allocating t s" "s' = s\<lparr> aborted := True \<rparr>"
  using assms by (cases e) (auto simp: step_def split: if_splits)

lemma step_not_aborted: "step e s = Some s' \<Longrightarrow> \<not> aborted s"
  by (auto simp: step_def split: if_splits)

section \<open>Mutual exclusion\<close>

lemma lock_ok_at: "lock_ok h m ws \<Longrightarrow> i < length ws \<Longrightarrow> h (ws ! i) = (m = Some (WorkerThread i))"
  by (simp add: lock_ok_def)

lemma lock_ok_update:
  assumes "lock_ok h m ws" and "i < length ws"
    and "h w = (m' = Some (WorkerThread i))"
    and "m' = m \<or> ((m = None \<or> m = Some MainThread \<or> m = Some (WorkerThread i))
          \<and> (m' = None \<or> m' = Some MainThread \<or> m' = Some (WorkerThread i)))"
  shows "lock_ok h m' (ws[i := w])"
  unfolding lock_ok_def
proof (intro conjI allI impI)
  fix j assume j: "j < length (ws[i := w])"
  show "h (ws[i := w] ! j) = (m' = Some (WorkerThread j))"
  proof (cases "j = i")
    case True with assms show ?thesis by simp
  next
    case False
    with j assms(1) have "h (ws[i := w] ! j) = (m = Some (WorkerThread j))"
      by (simp add: lock_ok_def)
    also have "\<dots> = (m' = Some (WorkerThread j))"
      using False assms(4) by auto
    finally show ?thesis .
  qed
next
  fix j assume "m' = Some (WorkerThread j)"
  with assms show "j < length (ws[i := w])"
    by (auto simp: lock_ok_def)
qed

lemma lock_ok_same:
  "lock_ok h m ws \<Longrightarrow> i < length ws \<Longrightarrow> h w = (m = Some (WorkerThread i))
   \<Longrightarrow> lock_ok h m (ws[i := w])"
  by (rule lock_ok_update [where m = m]) auto

lemma lock_ok_acquire:
  "lock_ok h None ws \<Longrightarrow> i < length ws \<Longrightarrow> h w
   \<Longrightarrow> lock_ok h (Some (WorkerThread i)) (ws[i := w])"
  by (rule lock_ok_update [where m = None]) auto

lemma lock_ok_release:
  "lock_ok h (Some (WorkerThread i)) ws \<Longrightarrow> \<not> h w \<Longrightarrow> lock_ok h None (ws[i := w])"
  by (rule lock_ok_update [where m = "Some (WorkerThread i)"]) (auto simp: lock_ok_def)

lemma lock_ok_main:
  assumes "lock_ok h m ws" and "m = None \<or> m = Some MainThread"
    and "m' = None \<or> m' = Some MainThread"
  shows "lock_ok h m' ws"
  using assms by (auto simp: lock_ok_def)

lemma lock_ok_append: "lock_ok h m ws \<Longrightarrow> \<not> h w \<Longrightarrow> lock_ok h m (ws @ [w])"
  by (auto simp: lock_ok_def nth_append less_Suc_eq)

lemma lock_ok_map: "lock_ok h m ws \<Longrightarrow> (\<And>w. h (f w) = h w) \<Longrightarrow> lock_ok h m (map f ws)"
  by (simp add: lock_ok_def)

lemma inv_locks_init: "inv_locks (init_system nw bs reqs)"
  by (simp add: inv_locks_def init_system_def lock_ok_def)

lemma inv_locks_worker:
  assumes "inv_locks s" and "worker_step i s = Some s'"
  shows "inv_locks s'"
proof -
  from assms(2) have i: "i < length (workers s)"
    by (auto simp: worker_step_def split: if_splits)
  from assms(1) have a: "lock_ok holds_mu (mu s) (workers s)"
    and b: "main_holds_mu (main s) = (mu s = Some MainThread)"
    and c: "lock_ok holds_lat_mu (lat_mu s) (workers s)"
    and d: "lat_mu s \<noteq> Some MainThread"
    by (simp_all add: inv_locks_def)
  note at = lock_ok_at [OF a i] lock_ok_at [OF c i]
  from assms(2) show ?thesis
    by (cases rule: worker_stepE)
      (use at a b c d in \<open>simp_all add: inv_locks_def set_worker_def
         lock_ok_same lock_ok_acquire lock_ok_release\<close>)
qed

lemma inv_locks_main:
  assumes "inv_locks s" and "main_step k s = Some s'"
  shows "inv_locks s'"
proof -
  from assms(1) have a: "lock_ok holds_mu (mu s) (workers s)"
    and b: "main_holds_mu (main s) = (mu s = Some MainThread)"
    and c: "lock_ok holds_lat_mu (lat_mu s) (workers s)"
    and d: "lat_mu s \<noteq> Some MainThread"
    by (simp_all add: inv_locks_def)
  from assms(2) show ?thesis
  proof (cases rule: main_stepE)
    case notify_one
    note at = lock_ok_at [OF a notify_one(2)] lock_ok_at [OF c notify_one(2)]
    from notify_one at a b c d show ?thesis
      by (simp add: inv_locks_def lock_ok_same)
  next
    case notify_all
    with a b c d show ?thesis
      by (simp add: inv_locks_def lock_ok_map)
  qed (use a b c d in \<open>simp_all add: inv_locks_def enqueue_def lock_ok_append
         lock_ok_main [OF a]\<close>)
qed

lemma inv_locks_step:
  assumes "inv_locks s" and "step e s = Some s'"
  shows "inv_locks s'"
  using assms(2)
proof (cases rule: stepE)
  case (Main k)
  with assms(1) show ?thesis by (simp add: inv_locks_main)
next
  case (Worker i)
  with assms(1) show ?thesis by (simp add: inv_locks_worker)
next
  case (Spurious i)
  from assms(1) have a: "lock_ok holds_mu (mu s) (workers s)"
    and b: "main_holds_mu (main s) = (mu s = Some MainThread)"
    and c: "lock_ok holds_lat_mu (lat_mu s) (workers s)"
    and d: "lat_mu s \<noteq> Some MainThread"
    by (simp_all add: inv_locks_def)
  from lock_ok_at [OF a Spurious(2)] lock_ok_at [OF c Spurious(2)] Spurious a b c d
  show ?thesis
    by (simp add: inv_locks_def set_worker_def lock_ok_same)
next
  case (Tick d)
  with assms(1) show ?thesis
    by (simp add: inv_locks_def)
next
  case (Exhausted t)
  with assms(1) show ?thesis
    by (simp add: inv_locks_def)
qed

section \<open>No request is lost or duplicated\<close>

lemma sum_list_update_add:
  fixes f :: "'a \<Rightarrow> 'b :: comm_monoid_add"
  shows "i < length ws \<Longrightarrow> (\<Sum>w\<leftarrow>ws[i := w']. f w) + f (ws ! i) = (\<Sum>w\<leftarrow>ws. f w) + f w'"
proof (induction ws arbitrary: i)
  case Nil
  then show ?case by simp
next
  case (Cons a ws)
  show ?case
  proof (cases i)
    case 0
    then show ?thesis by (simp add: ac_simps)
  next
    case (Suc j)
    with Cons.prems have "j < length ws" by simp
    from Cons.IH [OF this] Suc show ?thesis by (simp add: ac_simps)
  qed
qed

lemma sum_list_update_same:
  fixes f :: "'a \<Rightarrow> 'b :: cancel_comm_monoid_add"
  assumes "i < length ws" and "f w' = f (ws ! i)"
  shows "(\<Sum>w\<leftarrow>ws[i := w']. f w) = (\<Sum>w\<leftarrow>ws. f w)"
  using sum_list_update_add [OF assms(1), of f w'] assms(2) by simp

lemma sum_list_update_in:
  fixes f :: "'a \<Rightarrow> 'b :: cancel_comm_monoid_add"
  assumes "i < length ws" and "f (ws ! i) = 0"
  shows "(\<Sum>w\<leftarrow>ws[i := w']. f w) = (\<Sum>w\<leftarrow>ws. f w) + f w'"
  using sum_list_update_add [OF assms(1), of f w'] assms(2) by simp

lemma sum_list_update_out:
  fixes f :: "'a \<Rightarrow> 'b :: cancel_comm_monoid_add"
  assumes "i < length ws" and "f w' = 0"
  shows "(\<Sum>w\<leftarrow>ws. f w) = (\<Sum>w\<leftarrow>ws[i := w']. f w) + f (ws ! i)"
  using sum_list_update_add [OF assms(1), of f w'] assms(2) by simp

lemma drain_loop_mset:
  "mset (fst (drain_loop bs batch q)) + mset (snd (drain_loop bs batch q)) = mset batch + mset q"
proof (induction bs batch q rule: drain_loop.induct)
  case (1 bs batch q)
  show ?case
  proof (cases "q \<noteq> [] \<and> (word_of_nat (length batch) :: cint) <s bs")
    case True
    then obtain q1 where q1: "pq_pop q = Some q1" using pq_pop_Some by blast
    from True q1 have "mset (fst (drain_loop bs (batch @ [hd q]) q1))
        + mset (snd (drain_loop bs (batch @ [hd q]) q1)) = mset (batch @ [hd q]) + mset q1"
      by (intro "1.IH" [OF True refl]) (simp_all add: pq_top_Some)
    with True q1 mset_pq_pop [OF q1] show ?thesis
      by (simp add: drain_loop_step [OF _ _ q1])
  next
    case False
    then have "drain_loop bs batch q = (batch, q)" by (intro drain_loop_stop) auto
    then show ?thesis by simp
  qed
qed

lemma drain_batch_mset:
  "mset (fst (drain_batch bs q)) + mset (snd (drain_batch bs q)) = mset q"
  using drain_loop_mset [of bs "[]" q] by (simp add: drain_batch_def)

lemma drain_batch_Nil: "drain_batch bs [] = ([], [])"
  by (simp add: drain_batch_def drain_loop_stop)

lemma in_flight_woken: "in_flight (if w = W_Waiting then W_Woken else w) = in_flight w"
  by simp

lemma uncounted_woken: "uncounted (if w = W_Waiting then W_Woken else w) = uncounted w"
  by simp

lemma inv_flow_init: "inv_flow (init_system nw bs reqs)"
  by (simp add: inv_flow_def init_system_def new_scheduler_def)

lemma inv_flow_worker:
  assumes "inv_flow s" and "worker_step i s = Some s'"
  shows "inv_flow s'"
proof -
  from assms(1) have
    a: "mset (submitted s)
        = mset (queue (sched s)) + (\<Sum>w\<leftarrow>workers s. mset (in_flight w)) + mset (recorded s)"
    and b: "length (latencies (sched s)) = length (recorded s)"
    and c: "(word_of_nat (length (recorded s)) :: cint)
          = total_processed (sched s) + word_of_nat (\<Sum>w\<leftarrow>workers s. uncounted w)"
    by (simp_all add: inv_flow_def)
  from assms(2) show ?thesis
  proof (cases rule: worker_stepE)
    case drain
    let ?d = "drain_batch (batch_size (sched s)) (queue (sched s))"
    from drain have "(\<Sum>w\<leftarrow>(workers s)[i := W_Unlock (fst ?d)]. mset (in_flight w))
        = (\<Sum>w\<leftarrow>workers s. mset (in_flight w)) + mset (fst ?d)"
      by (subst sum_list_update_in) simp_all
    moreover from drain have "(\<Sum>w\<leftarrow>(workers s)[i := W_Unlock (fst ?d)]. uncounted w)
        = (\<Sum>w\<leftarrow>workers s. uncounted w)"
      by (subst sum_list_update_same) simp_all
    ultimately show ?thesis
      using a b c drain drain_batch_mset [of "batch_size (sched s)" "queue (sched s)"]
      by (simp add: inv_flow_def set_worker_def ac_simps)
  next
    case (sample b' t)
    from sample have "(\<Sum>w\<leftarrow>workers s. mset (in_flight w))
        = (\<Sum>w\<leftarrow>(workers s)[i := W_LatUnlock b']. mset (in_flight w)) + mset b'"
      using sum_list_update_out [of i "workers s" "\<lambda>w. mset (in_flight w)" "W_LatUnlock b'"]
      by simp
    moreover from sample have "(\<Sum>w\<leftarrow>(workers s)[i := W_LatUnlock b']. uncounted w)
        = (\<Sum>w\<leftarrow>workers s. uncounted w) + length b'"
      using sum_list_update_in [of i "workers s" uncounted "W_LatUnlock b'"] by simp
    ultimately show ?thesis
      using a b c sample
      by (simp add: inv_flow_def set_worker_def record_latencies_def ac_simps)
  next
    case (count b')
    from count have "(\<Sum>w\<leftarrow>workers s. uncounted w)
        = (\<Sum>w\<leftarrow>(workers s)[i := W_Top]. uncounted w) + length b'"
      using sum_list_update_out [of i "workers s" uncounted W_Top] by simp
    moreover from count have "(\<Sum>w\<leftarrow>(workers s)[i := W_Top]. mset (in_flight w))
        = (\<Sum>w\<leftarrow>workers s. mset (in_flight w))"
      by (subst sum_list_update_same) simp_all
    ultimately show ?thesis
      using a b c count
      by (simp add: inv_flow_def set_worker_def ac_simps)
  qed (use a b c in \<open>simp_all add: inv_flow_def set_worker_def sum_list_update_same\<close>)
qed

lemma inv_flow_main:
  assumes "inv_flow s" and "main_step k s = Some s'"
  shows "inv_flow s'"
proof -
  from assms(1) have
    a: "mset (submitted s)
        = mset (queue (sched s)) + (\<Sum>w\<leftarrow>workers s. mset (in_flight w)) + mset (recorded s)"
    and b: "length (latencies (sched s)) = length (recorded s)"
    and c: "(word_of_nat (length (recorded s)) :: cint)
          = total_processed (sched s) + word_of_nat (\<Sum>w\<leftarrow>workers s. uncounted w)"
    by (simp_all add: inv_flow_def)
  from assms(2) show ?thesis
    by (cases rule: main_stepE)
      (use a b c in \<open>simp_all add: inv_flow_def enqueue_def mset_pq_push sum_list_update_same
         comp_def in_flight_woken uncounted_woken\<close>)
qed

lemma inv_flow_step:
  assumes "inv_flow s" and "step e s = Some s'"
  shows "inv_flow s'"
  using assms(2)
proof (cases rule: stepE)
  case (Main k)
  with assms(1) show ?thesis by (simp add: inv_flow_main)
next
  case (Worker i)
  with assms(1) show ?thesis by (simp add: inv_flow_worker)
next
  case (Spurious i)
  with assms(1) show ?thesis
    by (simp add: inv_flow_def set_worker_def sum_list_update_same)
next
  case (Tick d)
  with assms(1) show ?thesis
    by (simp add: inv_flow_def)
next
  case (Exhausted t)
  with assms(1) show ?thesis
    by (simp add: inv_flow_def)
qed

section \<open>The protocol of the caller\<close>

lemma list_all_update: "list_all P ws \<Longrightarrow> P w \<Longrightarrow> list_all P (ws[i := w])"
  by (metis list_all_length length_list_update nth_list_update_eq nth_list_update_neq)

lemma list_all_nth: "list_all P ws \<Longrightarrow> i < length ws \<Longrightarrow> P (ws ! i)"
  by (simp add: list_all_length)

lemma list_all_woken:
  "list_all (\<lambda>w. w \<noteq> W_Waiting) (map (\<lambda>w. if w = W_Waiting then W_Woken else w) ws)"
  by (induction ws) simp_all

lemma list_all_woken_finishing:
  "list_all (\<lambda>w. \<not> finishing w) (map (\<lambda>w. if w = W_Waiting then W_Woken else w) ws)
     = list_all (\<lambda>w. \<not> finishing w) ws"
  by (induction ws) simp_all

lemma inv_main_init: "inv_main nw reqs (init_system nw bs reqs)"
  by (simp add: inv_main_def init_system_def new_scheduler_def)

lemma inv_main_worker:
  assumes "inv_main nw reqs s" and "worker_step i s = Some s'"
  shows "inv_main nw reqs s'"
proof -
  from assms(2) have i: "i < length (workers s)"
    by (auto simp: worker_step_def split: if_splits)
  from assms(1) have
    p1: "map payload (submitted s) @ map payload (cur_req (main s)) @ map payload (to_submit s)
        = map payload reqs"
    and p2: "num_workers (sched s) = nw"
    and p3: "spawn_ok nw (main s) (length (workers s))"
    and p4: "shutdown (sched s) = shut_set (main s)"
    and p5: "enq_done (main s) \<longrightarrow> to_submit s = []"
    and p6: "shutdown (sched s) \<and> queue (sched s) = []
          \<or> list_all (\<lambda>w. \<not> finishing w) (workers s)"
    and p7: "joining (main s) \<longrightarrow> list_all (\<lambda>w. w \<noteq> W_Waiting) (workers s)"
    and p8: "main s = M_Done \<longrightarrow> list_all (\<lambda>w. w = W_Done) (workers s)"
    unfolding inv_main_def by blast+
  have n6: "\<not> finishing (workers s ! i) \<or> shutdown (sched s) \<and> queue (sched s) = []"
    using p6 list_all_nth [OF _ i, of "\<lambda>w. \<not> finishing w"] by blast
  have n8: "main s = M_Done \<longrightarrow> workers s ! i = W_Done"
    using p8 list_all_nth [OF _ i, of "\<lambda>w. w = W_Done"] by blast
  have j: "joining (main s) \<longrightarrow> shutdown (sched s)"
    using p4 by (cases "main s") simp_all
  have u6: "\<And>w. \<not> finishing w \<Longrightarrow> shutdown (sched s) \<and> queue (sched s) = []
        \<or> list_all (\<lambda>w. \<not> finishing w) ((workers s)[i := w])"
    using p6 by (auto intro: list_all_update)
  have u7: "\<And>w. w \<noteq> W_Waiting \<Longrightarrow> joining (main s) \<longrightarrow> list_all (\<lambda>w. w \<noteq> W_Waiting) ((workers s)[i := w])"
    using p7 by (auto intro: list_all_update)
  from assms(2) show ?thesis
  proof (cases rule: worker_stepE)
    case abort
    with assms(1) show ?thesis
      by (auto simp: inv_main_def)
  next
    case drain
    with p1 p2 p3 p4 p5 p7 n8 u6 [of "W_Unlock (fst (drain_batch (batch_size (sched s)) (queue (sched s))))"]
      u7 [of "W_Unlock (fst (drain_batch (batch_size (sched s)) (queue (sched s))))"]
    show ?thesis
      by (auto simp: inv_main_def set_worker_def drain_batch_Nil)
  next
    case wait
    with p1 p2 p3 p4 p5 j n8 u6 [of W_Waiting] show ?thesis
      by (auto simp: inv_main_def set_worker_def)
  next
    case leave
    with p1 p2 p3 p4 p5 n8 u7 [of W_Break] show ?thesis
      by (auto simp: inv_main_def set_worker_def)
  next
    case return
    with p1 p2 p3 p4 p5 n6 n8 u7 [of W_Done] show ?thesis
      by (auto simp: inv_main_def set_worker_def)
  qed (use p1 p2 p3 p4 p5 n8 u6 u7 in \<open>simp_all add: inv_main_def set_worker_def\<close>)
qed

lemma payload_stamp [simp]: "payload (r\<lparr> enqueue_time_ms := t \<rparr>) = payload r"
  by (simp add: payload_def)

lemma spawn_ok_finish:
  assumes "int n \<le> max 0 (sint nw)" and "\<not> int n < sint nw"
  shows "int n = max 0 (sint nw)"
  using assms by (simp add: max_def split: if_splits)

lemma inv_main_main:
  assumes "inv_main nw reqs s" and "main_step k s = Some s'"
  shows "inv_main nw reqs s'"
proof -
  from assms(1) have
    p1: "map payload (submitted s) @ map payload (cur_req (main s)) @ map payload (to_submit s)
        = map payload reqs"
    and p2: "num_workers (sched s) = nw"
    and p3: "spawn_ok nw (main s) (length (workers s))"
    and p4: "shutdown (sched s) = shut_set (main s)"
    and p5: "enq_done (main s) \<longrightarrow> to_submit s = []"
    and p6: "shutdown (sched s) \<and> queue (sched s) = []
          \<or> list_all (\<lambda>w. \<not> finishing w) (workers s)"
    and p7: "joining (main s) \<longrightarrow> list_all (\<lambda>w. w \<noteq> W_Waiting) (workers s)"
    and p8: "main s = M_Done \<longrightarrow> list_all (\<lambda>w. w = W_Done) (workers s)"
    unfolding inv_main_def by blast+
  from assms(2) show ?thesis
  proof (cases rule: main_stepE)
    case (spawned n)
    with p3 p2 have "int (length (workers s)) = max 0 (sint nw)"
      by (simp add: spawn_ok_finish)
    with spawned p1 p2 p4 p5 p6 show ?thesis
      by (simp add: inv_main_def)
  next
    case notify_one
    with p1 p2 p3 p4 p5 p6 show ?thesis
      by (auto simp: inv_main_def intro: list_all_update)
  next
    case notify_all
    with p1 p2 p3 p4 p5 p6 show ?thesis
      by (simp add: inv_main_def list_all_woken list_all_woken_finishing)
  qed (use p1 p2 p3 p4 p5 p6 p7 in \<open>auto simp: inv_main_def enqueue_def\<close>)
qed

lemma inv_main_step:
  assumes "inv_main nw reqs s" and "step e s = Some s'"
  shows "inv_main nw reqs s'"
  using assms(2)
proof (cases rule: stepE)
  case (Main k)
  with assms(1) show ?thesis by (simp add: inv_main_main)
next
  case (Worker i)
  with assms(1) show ?thesis by (simp add: inv_main_worker)
next
  case (Spurious i)
  from assms(1) have
    p6: "shutdown (sched s) \<and> queue (sched s) = []
          \<or> list_all (\<lambda>w. \<not> finishing w) (workers s)"
    and p7: "joining (main s) \<longrightarrow> list_all (\<lambda>w. w \<noteq> W_Waiting) (workers s)"
    unfolding inv_main_def by blast+
  from p7 Spurious have "\<not> joining (main s)"
    using list_all_nth [OF _ Spurious(2), of "\<lambda>w. w \<noteq> W_Waiting"] by auto
  moreover from this have "main s \<noteq> M_Done" by auto
  moreover from p6 have "shutdown (sched s) \<and> queue (sched s) = []
          \<or> list_all (\<lambda>w. \<not> finishing w) ((workers s)[i := W_Woken])"
    by (auto intro: list_all_update)
  ultimately show ?thesis
    using assms(1) Spurious by (simp add: inv_main_def set_worker_def)
next
  case (Tick d)
  with assms(1) show ?thesis
    by (auto simp: inv_main_def)
next
  case (Exhausted t)
  with assms(1) show ?thesis
    by (auto simp: inv_main_def)
qed

lemma is_heap_drain_batch: "is_heap q \<Longrightarrow> is_heap (snd (drain_batch bs q))"
  using drain_loop_props [of q bs "[]"] by (auto simp: drain_batch_def)

lemma inv_heap_step:
  assumes "inv_heap s" and "step e s = Some s'"
  shows "inv_heap s'"
  using assms(2)
proof (cases rule: stepE)
  case (Main k)
  from Main(2) show ?thesis
    by (cases rule: main_stepE)
      (use assms(1) in \<open>simp_all add: inv_heap_def enqueue_def is_heap_pq_push\<close>)
next
  case (Worker i)
  from Worker(2) show ?thesis
    by (cases rule: worker_stepE)
      (use assms(1) in \<open>simp_all add: inv_heap_def set_worker_def is_heap_drain_batch\<close>)
next
  case (Spurious i)
  with assms(1) show ?thesis
    by (simp add: inv_heap_def set_worker_def)
next
  case (Tick d)
  with assms(1) show ?thesis
    by (simp add: inv_heap_def)
next
  case (Exhausted t)
  with assms(1) show ?thesis
    by (simp add: inv_heap_def)
qed

lemma invariant_init: "invariant nw reqs (init_system nw bs reqs)"
  by (simp add: invariant_def inv_locks_init inv_flow_init inv_main_init inv_heap_def)
     (simp add: init_system_def new_scheduler_def is_heap_def)

lemma invariant_step: "invariant nw reqs s \<Longrightarrow> step e s = Some s' \<Longrightarrow> invariant nw reqs s'"
  unfolding invariant_def
  using inv_locks_step inv_flow_step inv_main_step inv_heap_step by blast

lemma invariant_run: "run es s = Some s' \<Longrightarrow> invariant nw reqs s \<Longrightarrow> invariant nw reqs s'"
proof (induction es arbitrary: s)
  case Nil
  then show ?case by simp
next
  case (Cons e es)
  from Cons.prems(1) obtain s1 where s1: "step e s = Some s1" and r: "run es s1 = Some s'"
    by (auto split: option.splits)
  from invariant_step [OF Cons.prems(2) s1] have "invariant nw reqs s1" .
  with r show ?case by (rule Cons.IH)
qed

lemma reachable_invariant:
  "run es (init_system nw bs reqs) = Some s \<Longrightarrow> invariant nw reqs s"
  by (rule invariant_run [OF _ invariant_init])


section \<open>Progress\<close>

lemma sums_all_done:
  assumes "list_all (\<lambda>w. w = W_Done) ws"
  shows "(\<Sum>w\<leftarrow>ws. mset (in_flight w)) = {#}" and "(\<Sum>w\<leftarrow>ws. uncounted w) = 0"
  using assms by (induction ws) simp_all

lemma free_to_move_step:
  "i < length (workers s) \<Longrightarrow> free_to_move (workers s ! i) \<Longrightarrow> worker_step i s \<noteq> None"
  by (cases "workers s ! i") (simp_all add: worker_step_def)

lemma holds_mu_free: "holds_mu w \<Longrightarrow> free_to_move w"
  by (cases w) simp_all

lemma holds_lat_mu_free: "holds_lat_mu w \<Longrightarrow> free_to_move w"
  by (cases w) simp_all

lemma main_holds_mu_step: "main_holds_mu (main s) \<Longrightarrow> main_step k s \<noteq> None"
  by (cases "main s") (simp_all add: main_step_def)

lemma mu_owner_moves:
  assumes "inv_locks s" and "mu s = Some t"
  shows "(t = MainThread \<and> main_step k s \<noteq> None)
         \<or> (\<exists>i. t = WorkerThread i \<and> i < length (workers s) \<and> holds_mu (workers s ! i)
                \<and> worker_step i s \<noteq> None)"
proof (cases t)
  case MainThread
  with assms show ?thesis
    by (simp add: inv_locks_def main_holds_mu_step)
next
  case (WorkerThread i)
  with assms have i: "i < length (workers s)" and h: "holds_mu (workers s ! i)"
    by (auto simp: inv_locks_def lock_ok_def)
  from free_to_move_step [OF i holds_mu_free [OF h]] WorkerThread i h show ?thesis
    by blast
qed

lemma lat_mu_owner_moves:
  assumes "inv_locks s" and "lat_mu s = Some t"
  shows "\<exists>i. t = WorkerThread i \<and> i < length (workers s) \<and> worker_step i s \<noteq> None"
proof (cases t)
  case MainThread
  with assms show ?thesis
    by (simp add: inv_locks_def)
next
  case (WorkerThread i)
  with assms have i: "i < length (workers s)" and h: "holds_lat_mu (workers s ! i)"
    by (auto simp: inv_locks_def lock_ok_def)
  from free_to_move_step [OF i holds_lat_mu_free [OF h]] WorkerThread i show ?thesis
    by blast
qed

lemma worker_or_owner_moves:
  assumes l: "inv_locks s" and i: "i < length (workers s)"
    and w: "workers s ! i \<noteq> W_Done" "workers s ! i \<noteq> W_Waiting"
    and m: "\<not> main_holds_mu (main s)"
  shows "\<exists>j. worker_step j s \<noteq> None"
proof (cases "free_to_move (workers s ! i)")
  case True
  from free_to_move_step [OF i True] show ?thesis ..
next
  case False
  from l m have nm: "mu s \<noteq> Some MainThread" by (simp add: inv_locks_def)
  show ?thesis
  proof (cases "workers s ! i")
    case W_Top
    show ?thesis
    proof (cases "mu s")
      case None
      with W_Top i have "worker_step i s \<noteq> None" by (simp add: worker_step_def)
      then show ?thesis ..
    next
      case (Some t)
      with mu_owner_moves [OF l Some, of 0] nm show ?thesis by auto
    qed
  next
    case W_Woken
    show ?thesis
    proof (cases "mu s")
      case None
      with W_Woken i have "worker_step i s \<noteq> None" by (simp add: worker_step_def)
      then show ?thesis ..
    next
      case (Some t)
      with mu_owner_moves [OF l Some, of 0] nm show ?thesis by auto
    qed
  next
    case (W_LatLock b t)
    show ?thesis
    proof (cases "lat_mu s")
      case None
      with W_LatLock i have "worker_step i s \<noteq> None" by (simp add: worker_step_def)
      then show ?thesis ..
    next
      case (Some t)
      with lat_mu_owner_moves [OF l Some] show ?thesis by auto
    qed
  qed (use False w in simp_all)
qed

lemma some_thread_moves:
  assumes l: "inv_locks s" and p: "inv_main nw reqs s" and d: "main s \<noteq> M_Done"
  shows "(\<exists>k. main_step k s \<noteq> None) \<or> (\<exists>i. worker_step i s \<noteq> None)"
proof (cases "main s")
  case (M_EnqLock r t)
  show ?thesis
  proof (cases "mu s")
    case None
    with M_EnqLock have "main_step 0 s \<noteq> None" by (simp add: main_step_def)
    then show ?thesis by blast
  next
    case (Some t)
    with mu_owner_moves [OF l Some, of 0] show ?thesis by auto
  qed
next
  case M_ShutLock
  show ?thesis
  proof (cases "mu s")
    case None
    with M_ShutLock have "main_step 0 s \<noteq> None" by (simp add: main_step_def)
    then show ?thesis by blast
  next
    case (Some t)
    with mu_owner_moves [OF l Some, of 0] show ?thesis by auto
  qed
next
  case M_EnqNotify
  show ?thesis
  proof (cases "W_Waiting \<in> set (workers s)")
    case True
    then obtain k where "k < length (workers s)" "workers s ! k = W_Waiting"
      by (auto simp: in_set_conv_nth)
    with M_EnqNotify True have "main_step k s \<noteq> None" by (simp add: main_step_def)
    then show ?thesis by blast
  next
    case False
    with M_EnqNotify have "main_step 0 s \<noteq> None" by (simp add: main_step_def)
    then show ?thesis by blast
  qed
next
  case M_Join
  show ?thesis
  proof (cases "list_all (\<lambda>w. w = W_Done) (workers s)")
    case True
    with M_Join have "main_step 0 s \<noteq> None" by (simp add: main_step_def)
    then show ?thesis by blast
  next
    case False
    then obtain i where i: "i < length (workers s)" and nd: "workers s ! i \<noteq> W_Done"
      by (auto simp: list_all_length)
    from p M_Join have "list_all (\<lambda>w. w \<noteq> W_Waiting) (workers s)"
      by (simp add: inv_main_def)
    from list_all_nth [OF this i] have "workers s ! i \<noteq> W_Waiting" .
    from worker_or_owner_moves [OF l i nd this] M_Join show ?thesis by simp
  qed
next
  case M_Done
  with d show ?thesis by simp
qed (simp_all add: main_step_def split: list.splits)


section \<open>No thread sleeps on a lock\<close>

lemma pq_push_Nil: "pq_push [] x = [x]"
  by (simp add: pq_push_def push_heap_def sift_up.simps)

lemma drain_batch_single: "drain_batch 8 [x] = ([x], [])"
  by (simp add: drain_batch_def drain_loop.simps pq_top_def pq_pop_def swap_def sift_down.simps
      word_sless_alt)

lemmas run_eval =
  step_def main_step_def worker_step_def set_worker_def init_system_def new_scheduler_def
  enqueue_def pq_push_Nil drain_batch_single record_latencies_def sleep_micros_100
  allocating_def word_sless_alt

text \<open>
  C9: in every state a run reaches, a worker inside \<open>sleep_for\<close> owns neither \<open>mu_\<close> nor
  \<open>lat_mu_\<close>; the thread that owns \<open>mu_\<close> is at a point of its critical section from
  which it can take its next step, so that it never waits while it holds the queue
  lock; and as long as \<open>shutdown\<close> has not returned, the caller or some worker can take a
  step: there is no deadlock. (A process ended by \<open>std::terminate\<close> takes no step.)
\<close>

theorem no_lock_held_while_sleeping:
  assumes "run es (init_system nw bs reqs) = Some s"
  shows "(\<forall>i b us. i < length (workers s) \<and> workers s ! i = W_Sleep b us
            \<longrightarrow> mu s \<noteq> Some (WorkerThread i) \<and> lat_mu s \<noteq> Some (WorkerThread i))
    \<and> (\<forall>t. mu s = Some t
          \<longrightarrow> (t = MainThread \<and> main_holds_mu (main s) \<and> main_step k s \<noteq> None)
              \<or> (\<exists>i. t = WorkerThread i \<and> i < length (workers s)
                    \<and> holds_mu (workers s ! i) \<and> worker_step i s \<noteq> None))
    \<and> (\<not> aborted s \<and> main s \<noteq> M_Done
          \<longrightarrow> (\<exists>k. step (Main k) s \<noteq> None) \<or> (\<exists>i. step (Worker i) s \<noteq> None))"
proof (intro conjI allI impI)
  from reachable_invariant [OF assms]
  have l: "inv_locks s" and p: "inv_main nw reqs s"
    by (simp_all add: invariant_def)
  {
    fix i b us
    assume a: "i < length (workers s) \<and> workers s ! i = W_Sleep b us"
    with l have "holds_mu (workers s ! i) = (mu s = Some (WorkerThread i))"
      and "holds_lat_mu (workers s ! i) = (lat_mu s = Some (WorkerThread i))"
      by (auto simp: inv_locks_def lock_ok_def)
    with a show "mu s \<noteq> Some (WorkerThread i)" and "lat_mu s \<noteq> Some (WorkerThread i)"
      by simp_all
  }
  {
    fix t
    assume m: "mu s = Some t"
    from mu_owner_moves [OF l m, of k] l m
    show "(t = MainThread \<and> main_holds_mu (main s) \<and> main_step k s \<noteq> None)
        \<or> (\<exists>i. t = WorkerThread i \<and> i < length (workers s)
              \<and> holds_mu (workers s ! i) \<and> worker_step i s \<noteq> None)"
      by (auto simp: inv_locks_def)
  }
  {
    assume a: "\<not> aborted s \<and> main s \<noteq> M_Done"
    with l p have "(\<exists>k. main_step k s \<noteq> None) \<or> (\<exists>i. worker_step i s \<noteq> None)"
      by (intro some_thread_moves) simp_all
    with a show "(\<exists>k. step (Main k) s \<noteq> None) \<or> (\<exists>i. step (Worker i) s \<noteq> None)"
      by (simp add: step_def)
  }
qed

theorem no_lock_held_while_sleeping_witness:
  "run run_until_sleep (init_system 1 8 [request 0 1 100 0]) = Some worker_asleep
   \<and> workers worker_asleep ! 0 = W_Sleep [request 0 1 100 0] 2000
   \<and> mu worker_asleep \<noteq> Some (WorkerThread 0)
   \<and> lat_mu worker_asleep \<noteq> Some (WorkerThread 0)
   \<and> step (Main 0) worker_asleep = Some (worker_asleep\<lparr> main := M_ShutLock \<rparr>)"
proof -
  have r: "run run_until_sleep (init_system 1 8 [request 0 1 100 0]) = Some worker_asleep"
    by (simp add: run_eval)
  have w: "0 < length (workers worker_asleep)
      \<and> workers worker_asleep ! 0 = W_Sleep [request 0 1 100 0] 2000"
    by simp
  have m: "step (Main 0) worker_asleep = Some (worker_asleep\<lparr> main := M_ShutLock \<rparr>)"
    by (simp add: step_def main_step_def)
  from no_lock_held_while_sleeping [OF r, of 0] w
  have "mu worker_asleep \<noteq> Some (WorkerThread 0) \<and> lat_mu worker_asleep \<noteq> Some (WorkerThread 0)"
    by blast
  with r w m show ?thesis
    by simp
qed

section \<open>The size of a batch\<close>

lemma drain_batch_length: "length (fst (drain_batch bs q)) = min (length q) (nat (sint bs))"
proof -
  have "length ([] :: InferenceRequest list) < 2 ^ 31" by simp
  from drain_loop_length [OF this, of bs q] show ?thesis
    by (simp add: drain_batch_def)
qed

lemma batch_ok_woken: "batch_ok bs w \<Longrightarrow> batch_ok bs (if w = W_Waiting then W_Woken else w)"
  by (auto simp: batch_ok_def)

lemma batch_ok_woken_all:
  "list_all (batch_ok bs) ws
   \<Longrightarrow> list_all (batch_ok bs) (map (\<lambda>w. if w = W_Waiting then W_Woken else w) ws)"
  by (induction ws) (simp_all add: batch_ok_woken del: if_split)

lemma inv_batch_init: "inv_batch bs (init_system nw bs reqs)"
  by (simp add: inv_batch_def init_system_def new_scheduler_def)

lemma inv_batch_worker:
  assumes "inv_batch bs s" and "worker_step i s = Some s'"
  shows "inv_batch bs s'"
proof -
  from assms(1) have b: "batch_size (sched s) = bs" and a: "list_all (batch_ok bs) (workers s)"
    by (simp_all add: inv_batch_def)
  from assms(2) have i: "i < length (workers s)"
    by (auto simp: worker_step_def split: if_splits)
  from list_all_nth [OF a i] have at: "batch_ok bs (workers s ! i)" .
  have u: "\<And>w. batch_ok bs w \<Longrightarrow> list_all (batch_ok bs) ((workers s)[i := w])"
    using a by (rule list_all_update)
  from assms(2) show ?thesis
  proof (cases rule: worker_stepE)
    case abort
    with a b show ?thesis by (simp add: inv_batch_def)
  next
    case enter
    with b have "batch_ok bs W_Top" by (simp add: batch_ok_def word_sless_alt)
    with enter b u show ?thesis by (simp add: inv_batch_def set_worker_def)
  next
    case drain
    with at have "0 \<le> sint bs" by (simp add: batch_ok_def)
    then have "batch_ok bs (W_Unlock (fst (drain_batch bs (queue (sched s)))))"
      by (simp add: batch_ok_def drain_batch_length)
    with drain b u show ?thesis by (simp add: inv_batch_def set_worker_def)
  qed (use at b u in \<open>simp_all add: inv_batch_def set_worker_def batch_ok_def\<close>)
qed

lemma inv_batch_main:
  assumes "inv_batch bs s" and "main_step k s = Some s'"
  shows "inv_batch bs s'"
proof -
  from assms(1) have b: "batch_size (sched s) = bs" and a: "list_all (batch_ok bs) (workers s)"
    by (simp_all add: inv_batch_def)
  from assms(2) show ?thesis
  proof (cases rule: main_stepE)
    case notify_one
    from list_all_nth [OF a notify_one(2)] notify_one(3) have "batch_ok bs W_Woken"
      by (simp add: batch_ok_def)
    from list_all_update [OF a this] notify_one b show ?thesis
      by (simp add: inv_batch_def)
  next
    case notify_all
    from a have "list_all (batch_ok bs) (map (\<lambda>w. if w = W_Waiting then W_Woken else w) (workers s))"
      by (rule batch_ok_woken_all)
    with notify_all b show ?thesis
      by (simp add: inv_batch_def)
  qed (use a b in \<open>simp_all add: inv_batch_def enqueue_def batch_ok_def\<close>)
qed

lemma inv_batch_step:
  assumes "inv_batch bs s" and "step e s = Some s'"
  shows "inv_batch bs s'"
  using assms(2)
proof (cases rule: stepE)
  case (Main k)
  with assms(1) show ?thesis by (simp add: inv_batch_main)
next
  case (Worker i)
  with assms(1) show ?thesis by (simp add: inv_batch_worker)
next
  case (Spurious i)
  from assms(1) have b: "batch_size (sched s) = bs" and a: "list_all (batch_ok bs) (workers s)"
    by (simp_all add: inv_batch_def)
  from list_all_nth [OF a Spurious(2)] Spurious(3) have "batch_ok bs W_Woken"
    by (simp add: batch_ok_def)
  from list_all_update [OF a this] Spurious b show ?thesis
    by (simp add: inv_batch_def set_worker_def)
next
  case (Tick d)
  with assms(1) show ?thesis
    by (simp add: inv_batch_def)
next
  case (Exhausted t)
  with assms(1) show ?thesis
    by (simp add: inv_batch_def)
qed

lemma inv_batch_run: "run es s = Some s' \<Longrightarrow> inv_batch bs s \<Longrightarrow> inv_batch bs s'"
proof (induction es arbitrary: s)
  case Nil
  then show ?case by simp
next
  case (Cons e es)
  from Cons.prems(1) obtain s1 where s1: "step e s = Some s1" and r: "run es s1 = Some s'"
    by (auto split: option.splits)
  from inv_batch_step [OF Cons.prems(2) s1] have "inv_batch bs s1" .
  with r show ?case by (rule Cons.IH)
qed

text \<open>
  C4: a drain step takes exactly \<open>min (length q) batch_size\<close> requests, a batch size
  that is not positive counting as 0, so that a batch that is not empty never has more
  than \<open>batch_size\<close> requests; and in every state a run reaches, the batch a worker holds
  has at most \<open>batch_size\<close> requests, whatever the configured value: with a negative one
  no worker gets as far as holding a batch.
\<close>

theorem batch_never_exceeds_batch_size:
  "length (fst (drain_batch bs q)) = min (length q) (nat (sint bs))
   \<and> (fst (drain_batch bs q) \<noteq> [] \<longrightarrow> int (length (fst (drain_batch bs q))) \<le> sint bs)
   \<and> (0 \<le> sint bs \<longrightarrow> int (length (fst (drain_batch bs q))) \<le> sint bs)
   \<and> (run es (init_system nw bs reqs) = Some s \<and> i < length (workers s)
        \<and> batch_of (workers s ! i) = Some b
      \<longrightarrow> int (length b) \<le> sint bs)"
proof (intro conjI impI)
  show l: "length (fst (drain_batch bs q)) = min (length q) (nat (sint bs))"
    by (rule drain_batch_length)
  then show "int (length (fst (drain_batch bs q))) \<le> sint bs" if "fst (drain_batch bs q) \<noteq> []"
    using that by (cases "0 \<le> sint bs") auto
  from l show "int (length (fst (drain_batch bs q))) \<le> sint bs" if "0 \<le> sint bs"
    using that by auto
next
  assume a: "run es (init_system nw bs reqs) = Some s \<and> i < length (workers s)
      \<and> batch_of (workers s ! i) = Some b"
  then have "inv_batch bs s"
    using inv_batch_run [OF _ inv_batch_init] by blast
  then have "list_all (batch_ok bs) (workers s)"
    by (simp add: inv_batch_def)
  with a have "batch_ok bs (workers s ! i)"
    by (simp add: list_all_nth)
  with a show "int (length b) \<le> sint bs"
    by (simp add: batch_ok_def)
qed

theorem batch_never_exceeds_batch_size_witness:
  "fst (drain_batch 2 [request 1 5 100 0, request 0 1 100 0, request 2 3 100 0])
     = [request 1 5 100 0, request 2 3 100 0]
   \<and> int (length (fst (drain_batch 2
         [request 1 5 100 0, request 0 1 100 0, request 2 3 100 0]))) \<le> sint (2 :: cint)
   \<and> length (fst (drain_batch (- 1)
         [request 1 5 100 0, request 0 1 100 0, request 2 3 100 0])) = 0
   \<and> run run_until_sleep (init_system 1 8 [request 0 1 100 0]) = Some worker_asleep
   \<and> batch_of (workers worker_asleep ! 0) = Some [request 0 1 100 0]
   \<and> int (length [request 0 1 100 0]) \<le> sint (8 :: cint)"
proof -
  let ?q = "[request 1 5 100 0, request 0 1 100 0, request 2 3 100 0]"
  have d: "fst (drain_batch 2 ?q) = [request 1 5 100 0, request 2 3 100 0]"
    by code_simp
  then have n: "fst (drain_batch 2 ?q) \<noteq> []"
    by simp
  have "length (fst (drain_batch (- 1) ?q)) = min (length ?q) (nat (sint (- 1 :: cint)))"
    using batch_never_exceeds_batch_size [of "- 1" ?q] by blast
  then have z: "length (fst (drain_batch (- 1) ?q)) = 0"
    by simp
  from batch_never_exceeds_batch_size [of 2 ?q] n
  have t: "int (length (fst (drain_batch 2 ?q))) \<le> sint (2 :: cint)"
    by blast
  have r: "run run_until_sleep (init_system 1 8 [request 0 1 100 0]) = Some worker_asleep"
    by (simp add: run_eval)
  have w: "0 < length (workers worker_asleep)"
    "batch_of (workers worker_asleep ! 0) = Some [request 0 1 100 0]"
    by simp_all
  from batch_never_exceeds_batch_size
    [where bs = 8 and es = run_until_sleep and nw = 1 and reqs = "[request 0 1 100 0]"
      and s = worker_asleep and i = 0 and b = "[request 0 1 100 0]"] r w
  have "int (length [request 0 1 100 0]) \<le> sint (8 :: cint)"
    by blast
  with d z t r w show ?thesis
    by simp
qed

section \<open>Shutdown returns\<close>

subsection \<open>A worker drains only a queue that holds a request\<close>

lemma check_update: "W_Check \<in> set (ws[i := w]) \<Longrightarrow> w \<noteq> W_Check \<Longrightarrow> W_Check \<in> set ws"
  using set_update_subset_insert [of ws i w] by auto

lemma check_woken:
  "W_Check \<in> set (map (\<lambda>w. if w = W_Waiting then W_Woken else w) ws) \<Longrightarrow> W_Check \<in> set ws"
  by (auto split: if_splits)

lemma pq_push_not_Nil: "pq_push c x \<noteq> []"
proof
  assume "pq_push c x = []"
  with mset_pq_push [of c x] show False by simp
qed

lemma length_pq_push: "length (pq_push c x) = Suc (length c)"
  using arg_cong [OF mset_pq_push [of c x], of size] by simp

lemma inv_check_init: "inv_check (init_system nw bs reqs)"
  by (simp add: inv_check_def init_system_def)

lemma inv_check_worker:
  assumes "inv_check s" and "inv_locks s" and "worker_step i s = Some s'"
  shows "inv_check s'"
proof -
  from assms(3) have i: "i < length (workers s)"
    by (auto simp: worker_step_def split: if_splits)
  from assms(2) have a: "lock_ok holds_mu (mu s) (workers s)"
    by (simp add: inv_locks_def)
  from assms(3) show ?thesis
  proof (cases rule: worker_stepE)
    case ready
    then show ?thesis by (simp add: inv_check_def set_worker_def)
  next
    case drain
    let ?b = "fst (drain_batch (batch_size (sched s)) (queue (sched s)))"
    from lock_ok_at [OF a i] drain(2) have m: "mu s = Some (WorkerThread i)"
      by simp
    have "W_Check \<notin> set ((workers s)[i := W_Unlock ?b])"
    proof
      assume "W_Check \<in> set ((workers s)[i := W_Unlock ?b])"
      then obtain j where j: "j < length (workers s)"
        and c: "(workers s)[i := W_Unlock ?b] ! j = W_Check"
        by (auto simp: in_set_conv_nth)
      from c j have ne: "j \<noteq> i" by auto
      with c have "workers s ! j = W_Check" by simp
      with lock_ok_at [OF a j] m ne show False by simp
    qed
    with drain show ?thesis by (simp add: inv_check_def set_worker_def)
  qed (use assms(1) in \<open>auto simp: inv_check_def set_worker_def dest: check_update\<close>)
qed

lemma inv_check_main:
  assumes "inv_check s" and "main_step k s = Some s'"
  shows "inv_check s'"
  using assms(2)
  by (cases rule: main_stepE)
    (use assms(1) in \<open>auto simp: inv_check_def enqueue_def pq_push_not_Nil
       dest: check_update check_woken\<close>)

lemma inv_check_step:
  assumes "inv_check s" and "inv_locks s" and "step e s = Some s'"
  shows "inv_check s'"
  using assms(3)
proof (cases rule: stepE)
  case (Main k)
  with assms(1) show ?thesis by (simp add: inv_check_main)
next
  case (Worker i)
  with assms(1,2) show ?thesis by (simp add: inv_check_worker)
next
  case (Spurious i)
  with assms(1) show ?thesis
    by (auto simp: inv_check_def set_worker_def dest: check_update)
next
  case (Tick d)
  with assms(1) show ?thesis by (simp add: inv_check_def)
next
  case (Exhausted t)
  with assms(1) show ?thesis by (simp add: inv_check_def)
qed

subsection \<open>Every step of a thread uses up the budget\<close>

lemma drain_batch_takes:
  assumes "q \<noteq> []" and "0 < sint bs"
  shows "0 < length (fst (drain_batch bs q))"
    and "length (fst (drain_batch bs q)) + length (snd (drain_batch bs q)) = length q"
proof -
  from assms show "0 < length (fst (drain_batch bs q))"
    by (simp add: drain_batch_length)
  from arg_cong [OF drain_batch_mset [of bs q], of size]
  show "length (fst (drain_batch bs q)) + length (snd (drain_batch bs q)) = length q"
    by simp
qed

lemma budget_worker:
  assumes "worker_step i s = Some s'" and "inv_check s" and "0 < sint (batch_size (sched s))"
  shows "budget s' < budget s"
proof -
  from assms(1) have i: "i < length (workers s)"
    by (auto simp: worker_step_def split: if_splits)
  note u = sum_list_update_add [OF i, of worker_budget]
  from assms(1) show ?thesis
  proof (cases rule: worker_stepE)
    case abort
    with assms(3) show ?thesis by (simp add: word_sless_alt)
  next
    case drain
    let ?d = "drain_batch (batch_size (sched s)) (queue (sched s))"
    from drain(2) i have "W_Check \<in> set (workers s)"
      by (metis nth_mem)
    with assms(2) drain(3) have "queue (sched s) \<noteq> []"
      by (auto simp: inv_check_def)
    from drain_batch_takes [OF this assms(3)]
    have "0 < length (fst ?d)" "length (fst ?d) + length (snd ?d) = length (queue (sched s))" .
    then have "9 + 10 * length (snd ?d) < 10 * length (queue (sched s))"
      by arith
    with u [of "W_Unlock (fst ?d)"] drain show ?thesis
      by (simp add: budget_def set_worker_def)
  next
    case enter
    with u [of W_Top] show ?thesis by (simp add: budget_def set_worker_def)
  next
    case top
    with u [of W_Locked] show ?thesis by (simp add: budget_def set_worker_def)
  next
    case woken
    with u [of W_Locked] show ?thesis by (simp add: budget_def set_worker_def)
  next
    case ready
    with u [of W_Check] show ?thesis by (simp add: budget_def set_worker_def)
  next
    case wait
    with u [of W_Waiting] show ?thesis by (simp add: budget_def set_worker_def)
  next
    case leave
    with u [of W_Break] show ?thesis by (simp add: budget_def set_worker_def)
  next
    case return
    with u [of W_Done] show ?thesis by (simp add: budget_def set_worker_def)
  next
    case (unlock b)
    with u [of "W_Batch b"] show ?thesis by (simp add: budget_def set_worker_def)
  next
    case skip
    with u [of W_Top] show ?thesis by (simp add: budget_def set_worker_def)
  next
    case (sleep b)
    with u [of "W_Sleep b (sleep_micros b)"] show ?thesis by (simp add: budget_def set_worker_def)
  next
    case (wake b us)
    with u [of "W_LatLock b (clock s)"] show ?thesis by (simp add: budget_def set_worker_def)
  next
    case (latlock b t)
    with u [of "W_Record b t"] show ?thesis by (simp add: budget_def set_worker_def)
  next
    case (sample b t)
    with u [of "W_LatUnlock b"] show ?thesis by (simp add: budget_def set_worker_def)
  next
    case (latunlock b)
    with u [of "W_Count b"] show ?thesis by (simp add: budget_def set_worker_def)
  next
    case (count b)
    with u [of W_Top] show ?thesis by (simp add: budget_def set_worker_def)
  qed
qed

lemma budget_woken_all:
  "(\<Sum>w\<leftarrow>map (\<lambda>w. if w = W_Waiting then W_Woken else w) ws. worker_budget w)
     \<le> (\<Sum>w\<leftarrow>ws. worker_budget w) + 4 * length ws"
  by (induction ws) auto

lemma budget_main:
  assumes "main_step k s = Some s'" and "inv_main nw reqs s"
  shows "budget s' < budget s"
  using assms(1)
proof (cases rule: main_stepE)
  case (spawn n)
  then have "n < nat (sint (num_workers (sched s)))" by simp
  with spawn show ?thesis by (simp add: budget_def)
next
  case (spawned n)
  then have "nat (sint (num_workers (sched s))) - n = 0" by simp
  with spawned show ?thesis by (simp add: budget_def)
next
  case notify_one
  from sum_list_update_add [OF notify_one(2), of worker_budget W_Woken] notify_one
  show ?thesis by (simp add: budget_def)
next
  case notify_all
  from assms(2) notify_all(1) have "length (workers s) = nat (sint (num_workers (sched s)))"
    by (auto simp: inv_main_def)
  with budget_woken_all [of "workers s"] notify_all show ?thesis
    by (simp add: budget_def comp_def)
qed (simp_all add: budget_def enqueue_def length_pq_push)

lemma budget_step:
  assumes "step e s = Some s'" and "inv_main nw reqs s" and "inv_check s"
    and "0 < sint (batch_size (sched s))"
  shows "(if thread_event e then 1 else 0) + budget s'
           \<le> budget s + (if spurious_event e then 4 else 0)"
  using assms(1)
proof (cases rule: stepE)
  case (Main k)
  with budget_main [OF Main(2) assms(2)] show ?thesis by simp
next
  case (Worker i)
  with budget_worker [OF Worker(2) assms(3,4)] show ?thesis by simp
next
  case (Spurious i)
  from sum_list_update_add [OF Spurious(2), of worker_budget W_Woken] Spurious
  show ?thesis by (simp add: budget_def set_worker_def)
next
  case (Tick d)
  then show ?thesis by (simp add: budget_def)
next
  case (Exhausted t)
  then show ?thesis by (simp add: budget_def)
qed

lemma budget_init:
  "budget (init_system nw bs reqs) = 8 + 10 * nat (sint nw) + 19 * length reqs"
  by (simp add: budget_def init_system_def new_scheduler_def)

text \<open>What a run needs to go on: the invariants, and a positive batch size.\<close>

lemma going_step:
  assumes "invariant nw reqs s \<and> inv_check s \<and> inv_batch bs s" and "step e s = Some s'"
  shows "invariant nw reqs s' \<and> inv_check s' \<and> inv_batch bs s'"
  using assms invariant_step [of nw reqs s e s'] inv_check_step [of s e s']
    inv_batch_step [of bs s e s']
  by (simp add: invariant_def)

lemma going_init:
  "invariant nw reqs (init_system nw bs reqs) \<and> inv_check (init_system nw bs reqs)
   \<and> inv_batch bs (init_system nw bs reqs)"
  by (simp add: invariant_init inv_check_init inv_batch_init)

lemma going_run:
  "run es s = Some s' \<Longrightarrow> invariant nw reqs s \<and> inv_check s \<and> inv_batch bs s
   \<Longrightarrow> invariant nw reqs s' \<and> inv_check s' \<and> inv_batch bs s'"
proof (induction es arbitrary: s)
  case Nil
  then show ?case by simp
next
  case (Cons e es)
  from Cons.prems(1) obtain s1 where s1: "step e s = Some s1" and r: "run es s1 = Some s'"
    by (auto split: option.splits)
  from going_step [OF Cons.prems(2) s1] r show ?case
    by (rule Cons.IH [rotated])
qed

lemma budget_run:
  assumes "run es s = Some s'" and "invariant nw reqs s \<and> inv_check s \<and> inv_batch bs s"
    and "0 < sint bs"
  shows "length (filter thread_event es) + budget s'
           \<le> budget s + 4 * length (filter spurious_event es)"
  using assms(1,2)
proof (induction es arbitrary: s)
  case Nil
  then show ?case by simp
next
  case (Cons e es)
  from Cons.prems(1) obtain s1 where s1: "step e s = Some s1" and r: "run es s1 = Some s'"
    by (auto split: option.splits)
  from Cons.prems(2) assms(3) have "inv_main nw reqs s" "inv_check s"
    "0 < sint (batch_size (sched s))"
    by (simp_all add: invariant_def inv_batch_def)
  from budget_step [OF s1 this]
  have b: "(if thread_event e then 1 else 0) + budget s1
           \<le> budget s + (if spurious_event e then 4 else 0)" .
  from Cons.IH [OF r going_step [OF Cons.prems(2) s1]]
  have "length (filter thread_event es) + budget s'
           \<le> budget s1 + 4 * length (filter spurious_event es)" .
  with b show ?case
    by (cases "thread_event e"; cases "spurious_event e") simp_all
qed

lemma run_append:
  "run (es @ es') s = (case run es s of None \<Rightarrow> None | Some s1 \<Rightarrow> run es' s1)"
  by (induction es arbitrary: s) (simp_all split: option.splits)

text \<open>A step of a thread does not end the process, unless the batch size is negative.\<close>

lemma thread_step_alive:
  assumes "step e s = Some s'" and "thread_event e" and "0 \<le> sint (batch_size (sched s))"
  shows "\<not> aborted s'"
  using assms(1)
proof (cases rule: stepE)
  case (Main k)
  from Main(2) show ?thesis
    by (cases rule: main_stepE) (use step_not_aborted [OF assms(1)] in simp_all)
next
  case (Worker i)
  from Worker(2) show ?thesis
    by (cases rule: worker_stepE)
      (use step_not_aborted [OF assms(1)] assms(3) in
        \<open>simp_all add: set_worker_def word_sless_alt\<close>)
qed (use assms(2) in simp_all)

text \<open>
  From every state in which the process has not been ended the threads can run on to
  the return of \<open>shutdown\<close>, in no more steps than the budget.
\<close>

lemma run_to_completion:
  assumes "invariant nw reqs s \<and> inv_check s \<and> inv_batch bs s" and "0 < sint bs"
    and "\<not> aborted s"
  shows "\<exists>es s'. list_all thread_event es \<and> length es \<le> budget s
           \<and> run es s = Some s' \<and> main s' = M_Done \<and> \<not> aborted s'"
  using assms(1,3)
proof (induction "budget s" arbitrary: s rule: less_induct)
  case less
  show ?case
  proof (cases "main s = M_Done")
    case True
    with less.prems(2) have "list_all thread_event [] \<and> length ([] :: event list) \<le> budget s
        \<and> run [] s = Some s \<and> main s = M_Done \<and> \<not> aborted s"
      by simp
    then show ?thesis by blast
  next
    case False
    from less.prems(1) have l: "inv_locks s" and p: "inv_main nw reqs s" and c: "inv_check s"
      and b: "batch_size (sched s) = bs"
      by (simp_all add: invariant_def inv_batch_def)
    from some_thread_moves [OF l p False] less.prems(2)
    obtain e s1 where e: "thread_event e" and s1: "step e s = Some s1"
    proof -
      from some_thread_moves [OF l p False]
      consider k where "main_step k s \<noteq> None" | i where "worker_step i s \<noteq> None"
        by blast
      then show thesis
      proof cases
        case 1
        then obtain s1 where "main_step k s = Some s1" by auto
        with less.prems(2) have "step (Main k) s = Some s1" by (simp add: step_def)
        with that [of "Main k" s1] show thesis by simp
      next
        case 2
        then obtain s1 where "worker_step i s = Some s1" by auto
        with less.prems(2) have "step (Worker i) s = Some s1" by (simp add: step_def)
        with that [of "Worker i" s1] show thesis by simp
      qed
    qed
    from assms(2) b have pos: "0 < sint (batch_size (sched s))" by simp
    from e have "\<not> spurious_event e" by (cases e) simp_all
    with budget_step [OF s1 p c pos] e have d: "budget s1 < budget s" by simp
    from thread_step_alive [OF s1 e] pos have a1: "\<not> aborted s1" by simp
    from less.hyps [OF d going_step [OF less.prems(1) s1] a1]
    obtain es s' where es: "list_all thread_event es" "length es \<le> budget s1"
      "run es s1 = Some s'" "main s' = M_Done" "\<not> aborted s'"
      by blast
    with e s1 d have "list_all thread_event (e # es) \<and> length (e # es) \<le> budget s
        \<and> run (e # es) s = Some s' \<and> main s' = M_Done \<and> \<not> aborted s'"
      by simp
    then show ?thesis by blast
  qed
qed

subsection \<open>What a completed run has recorded\<close>

lemma completed_run_records_all:
  assumes "run es (init_system nw bs reqs) = Some s" and "main s = M_Done" and "0 < sint nw"
  shows "length (latencies (sched s)) = length reqs
    \<and> mset (map payload (recorded s)) = mset (map payload reqs)
    \<and> total_processed (sched s) = word_of_nat (length reqs)
    \<and> (length reqs < 2 ^ 31 \<longrightarrow> sint (total_processed (sched s)) = int (length reqs))
    \<and> queue (sched s) = []"
proof -
  from reachable_invariant [OF assms(1)]
  have f: "inv_flow s" and p: "inv_main nw reqs s"
    by (simp_all add: invariant_def)
  from p assms(2) have alld: "list_all (\<lambda>w. w = W_Done) (workers s)"
    and n: "int (length (workers s)) = max 0 (sint nw)"
    and sub: "map payload (submitted s) = map payload reqs"
    and fin: "shutdown (sched s) \<and> queue (sched s) = []
          \<or> list_all (\<lambda>w. \<not> finishing w) (workers s)"
    by (auto simp: inv_main_def)
  from n assms(3) have "0 < length (workers s)" by (cases "workers s") simp_all
  with list_all_nth [OF alld, of 0] have "finishing (workers s ! 0)" by simp
  with \<open>0 < length (workers s)\<close> have "\<not> list_all (\<lambda>w. \<not> finishing w) (workers s)"
    using list_all_nth [of "\<lambda>w. \<not> finishing w" "workers s" 0] by blast
  with fin have q: "queue (sched s) = []" by blast
  from f q sums_all_done [OF alld] have m: "mset (submitted s) = mset (recorded s)"
    and l: "length (latencies (sched s)) = length (recorded s)"
    and c: "(word_of_nat (length (recorded s)) :: cint) = total_processed (sched s)"
    by (simp_all add: inv_flow_def)
  from m have "mset (map payload (submitted s)) = mset (map payload (recorded s))"
    by simp
  with sub have r: "mset (map payload (recorded s)) = mset (map payload reqs)"
    by simp
  from arg_cong [OF this, of size] have len: "length (recorded s) = length reqs"
    by simp
  from c len have t: "total_processed (sched s) = word_of_nat (length reqs)"
    by simp
  from l len r t q show ?thesis
    by (simp add: sint_word_of_nat_small)
qed

text \<open>With a batch size that is not positive no worker ever records a request.\<close>

lemma nothing_recorded_step:
  assumes "step e s = Some s'" and "inv_batch bs s" and "sint bs \<le> 0" and "recorded s = []"
  shows "recorded s' = []"
  using assms(1)
proof (cases rule: stepE)
  case (Main k)
  from Main(2) show ?thesis
    by (cases rule: main_stepE) (use assms(4) in simp_all)
next
  case (Worker i)
  from Worker(2) show ?thesis
  proof (cases rule: worker_stepE)
    case (sample b t)
    from assms(2) have "list_all (batch_ok bs) (workers s)"
      by (simp add: inv_batch_def)
    from list_all_nth [OF this sample(1)] sample(2) assms(3) have "b = []"
      by (auto simp: batch_ok_def)
    with sample assms(4) show ?thesis by (simp add: set_worker_def)
  qed (use assms(4) in \<open>simp_all add: set_worker_def\<close>)
qed (use assms(4) in \<open>simp_all add: set_worker_def\<close>)

lemma nothing_recorded_run:
  "run es s = Some s' \<Longrightarrow> inv_batch bs s \<Longrightarrow> sint bs \<le> 0 \<Longrightarrow> recorded s = []
   \<Longrightarrow> recorded s' = []"
proof (induction es arbitrary: s)
  case Nil
  then show ?case by simp
next
  case (Cons e es)
  from Cons.prems(1) obtain s1 where s1: "step e s = Some s1" and r: "run es s1 = Some s'"
    by (auto split: option.splits)
  from Cons.IH [OF r inv_batch_step [OF Cons.prems(2) s1] Cons.prems(3)
      nothing_recorded_step [OF s1 Cons.prems(2,3,4)]]
  show ?case .
qed

text \<open>
  So with a worker, a batch size that is not positive and a request to submit,
  \<open>shutdown\<close> does not return.
\<close>

lemma no_completion_without_batch:
  assumes "run es (init_system nw bs reqs) = Some s" and "0 < sint nw" and "sint bs \<le> 0"
    and "reqs \<noteq> []"
  shows "main s \<noteq> M_Done"
proof
  assume d: "main s = M_Done"
  from completed_run_records_all [OF assms(1) d assms(2)]
  have "mset (map payload (recorded s)) = mset (map payload reqs)"
    by simp
  moreover from nothing_recorded_run [OF assms(1) inv_batch_init assms(3)]
  have "recorded s = []"
    by (simp add: init_system_def)
  ultimately show False
    using assms(4) by simp
qed

lemma drain_batch_zero: "drain_batch 0 q = ([], q)"
  by (simp add: drain_batch_def drain_loop_stop word_sless_alt)

text \<open>
  C2, as the specification states it, fails. A scheduler constructed with zero workers
  accepts a request, and its \<open>shutdown\<close> returns at once, as no thread is to be joined:
  the request is still queued, no latency sample is recorded and the processed count
  is 0. And with the batch size 0 the run does not come to completion: the request
  stays in the queue while the worker goes round its loop, one round leading back to
  the same state, and \<open>shutdown\<close> never returns.
\<close>

theorem zero_workers_drop_requests:
  "run run_without_worker (init_system 0 8 [request 0 1 100 0]) = Some end_without_worker
   \<and> run run_to_spin (init_system 1 0 [request 0 1 100 0]) = Some spinning
   \<and> run one_round spinning = Some spinning
   \<and> step (Main 0) spinning = None
   \<and> \<not> (\<exists>es s. run es (init_system 1 0 [request 0 1 100 0]) = Some s \<and> main s = M_Done)"
proof -
  have a: "run run_without_worker (init_system 0 8 [request 0 1 100 0])
      = Some end_without_worker"
    by (simp add: run_eval)
  have b: "run run_to_spin (init_system 1 0 [request 0 1 100 0]) = Some spinning"
    by (simp add: run_eval)
  have c: "run one_round spinning = Some spinning"
    by (simp add: run_eval drain_batch_zero)
  have d: "step (Main 0) spinning = None"
    by (simp add: run_eval)
  have "main s \<noteq> M_Done" if "run es (init_system 1 0 [request 0 1 100 0]) = Some s" for es s
    using no_completion_without_batch [OF that] by simp
  with a b c d show ?thesis
    by blast
qed

text \<open>
  C2, amended. With at least one worker, for every run in which N requests are
  submitted and then \<open>shutdown\<close> is called and returns, exactly N latency samples are
  recorded, the requests recorded are the requests submitted, each once, the queue is
  empty, and the processed count, a 32-bit counter, is N modulo \<open>2 ^ 32\<close>: it is N for
  N below \<open>2 ^ 31\<close>. With a positive batch size \<open>shutdown\<close> does return. In every run
  the threads take no more than \<open>8 + 10 * W + 19 * N\<close> steps, \<open>W\<close> being the number of
  workers, and 4 more for every spurious wake-up; as long as \<open>shutdown\<close> has not
  returned, some thread can take a step; and from every state a run reaches the threads
  can run on to the return of \<open>shutdown\<close>, the process being ended before only when an
  allocation fails.
\<close>

theorem all_submitted_recorded_once:
  assumes "run es (init_system nw bs reqs) = Some s"
  shows "(0 < sint nw \<and> main s = M_Done \<longrightarrow>
        length (latencies (sched s)) = length reqs
        \<and> mset (map payload (recorded s)) = mset (map payload reqs)
        \<and> total_processed (sched s) = word_of_nat (length reqs)
        \<and> (length reqs < 2 ^ 31 \<longrightarrow> sint (total_processed (sched s)) = int (length reqs))
        \<and> queue (sched s) = [])
    \<and> (0 < sint bs \<longrightarrow>
        length (filter thread_event es)
          \<le> 8 + 10 * nat (sint nw) + 19 * length reqs + 4 * length (filter spurious_event es)
        \<and> (\<not> aborted s \<and> main s \<noteq> M_Done \<longrightarrow> (\<exists>e. thread_event e \<and> step e s \<noteq> None))
        \<and> (\<not> aborted s \<longrightarrow>
             (\<exists>es' s'. list_all thread_event es'
                \<and> run (es @ es') (init_system nw bs reqs) = Some s' \<and> main s' = M_Done
                \<and> \<not> aborted s')))"
proof (intro conjI impI)
  assume "0 < sint nw \<and> main s = M_Done"
  with completed_run_records_all [OF assms] have r:
    "length (latencies (sched s)) = length reqs
    \<and> mset (map payload (recorded s)) = mset (map payload reqs)
    \<and> total_processed (sched s) = word_of_nat (length reqs)
    \<and> (length reqs < 2 ^ 31 \<longrightarrow> sint (total_processed (sched s)) = int (length reqs))
    \<and> queue (sched s) = []"
    by blast
  from r show "length (latencies (sched s)) = length reqs" by blast
  from r show "mset (map payload (recorded s)) = mset (map payload reqs)" by blast
  from r show "total_processed (sched s) = word_of_nat (length reqs)" by blast
  from r show "sint (total_processed (sched s)) = int (length reqs)" if "length reqs < 2 ^ 31"
    using that by blast
  from r show "queue (sched s) = []" by blast
next
  assume pos: "0 < sint bs"
  note g = going_run [OF assms going_init]
  from budget_run [OF assms going_init pos]
  show "length (filter thread_event es)
          \<le> 8 + 10 * nat (sint nw) + 19 * length reqs + 4 * length (filter spurious_event es)"
    by (simp add: budget_init)
  {
    assume a: "\<not> aborted s \<and> main s \<noteq> M_Done"
    from g have l: "inv_locks s" and p: "inv_main nw reqs s"
      by (simp_all add: invariant_def)
    from a l p have "(\<exists>k. main_step k s \<noteq> None) \<or> (\<exists>i. worker_step i s \<noteq> None)"
      by (intro some_thread_moves) simp_all
    then consider k where "step (Main k) s \<noteq> None" | i where "step (Worker i) s \<noteq> None"
      using a by (auto simp: step_def)
    then show "\<exists>e. thread_event e \<and> step e s \<noteq> None"
    proof cases
      case 1
      then have "thread_event (Main k) \<and> step (Main k) s \<noteq> None" by simp
      then show ?thesis by blast
    next
      case 2
      then have "thread_event (Worker i) \<and> step (Worker i) s \<noteq> None" by simp
      then show ?thesis by blast
    qed
  }
  {
    assume a: "\<not> aborted s"
    from run_to_completion [OF g pos a]
    obtain es' s' where c: "list_all thread_event es'" "run es' s = Some s'"
      "main s' = M_Done" "\<not> aborted s'"
      by blast
    with assms have "list_all thread_event es'
        \<and> run (es @ es') (init_system nw bs reqs) = Some s' \<and> main s' = M_Done \<and> \<not> aborted s'"
      by (simp add: run_append)
    then show "\<exists>es' s'. list_all thread_event es'
        \<and> run (es @ es') (init_system nw bs reqs) = Some s' \<and> main s' = M_Done \<and> \<not> aborted s'"
      by blast
  }
qed

theorem all_submitted_recorded_once_witness:
  "run run_with_worker (init_system 1 8 [request 0 1 100 0]) = Some end_with_worker
   \<and> length (latencies (sched end_with_worker)) = length [request 0 1 100 0]
   \<and> mset (map payload (recorded end_with_worker)) = mset (map payload [request 0 1 100 0])
   \<and> sint (total_processed (sched end_with_worker)) = 1
   \<and> queue (sched end_with_worker) = []
   \<and> length (filter thread_event run_with_worker) = 29
   \<and> 29 \<le> 8 + 10 * nat (sint (1 :: cint)) + 19 * length [request 0 1 100 0]
        + 4 * length (filter spurious_event run_with_worker)
   \<and> run run_until_sleep (init_system 1 8 [request 0 1 100 0]) = Some worker_asleep
   \<and> (\<exists>e. thread_event e \<and> step e worker_asleep \<noteq> None)
   \<and> (\<exists>es' s'. list_all thread_event es'
        \<and> run (run_until_sleep @ es') (init_system 1 8 [request 0 1 100 0]) = Some s'
        \<and> main s' = M_Done \<and> \<not> aborted s')"
proof -
  let ?i = "init_system 1 8 [request 0 1 100 0]"
  have r: "run run_with_worker ?i = Some end_with_worker"
    by (simp add: run_eval)
  have u: "run run_until_sleep ?i = Some worker_asleep"
    by (simp add: run_eval)
  have h: "0 < sint (1 :: cint) \<and> main end_with_worker = M_Done" "0 < sint (8 :: cint)"
    "length [request 0 1 100 0] < 2 ^ 31"
    "\<not> aborted worker_asleep \<and> main worker_asleep \<noteq> M_Done" "\<not> aborted worker_asleep"
    by simp_all
  have n: "length (filter thread_event run_with_worker) = 29"
    by simp
  from all_submitted_recorded_once [OF r] h
  have "length (latencies (sched end_with_worker)) = length [request 0 1 100 0]"
    and "mset (map payload (recorded end_with_worker)) = mset (map payload [request 0 1 100 0])"
    and "sint (total_processed (sched end_with_worker)) = int (length [request 0 1 100 0])"
    and "queue (sched end_with_worker) = []"
    and "length (filter thread_event run_with_worker)
          \<le> 8 + 10 * nat (sint (1 :: cint)) + 19 * length [request 0 1 100 0]
            + 4 * length (filter spurious_event run_with_worker)"
    by blast+
  moreover from all_submitted_recorded_once [OF u] h
  have "\<exists>e. thread_event e \<and> step e worker_asleep \<noteq> None"
    and "\<exists>es' s'. list_all thread_event es'
        \<and> run (run_until_sleep @ es') ?i = Some s' \<and> main s' = M_Done \<and> \<not> aborted s'"
    by blast+
  ultimately show ?thesis
    using r u n by simp
qed

section \<open>Construction\<close>

text \<open>
  C5, as the specification states it, fails: a scheduler with zero workers and a
  negative batch size is constructed, not rejected. The negative batch size shows
  later: the first worker that starts ends the process.
\<close>

theorem ctor_accepts_nonpositive:
  "InferenceScheduler_ctor 0 (- 1) =
     Inr \<lparr> num_workers = 0, batch_size = - 1, shutdown = False, total_processed = 0,
           start_time = 0, queue = [], latencies = [] \<rparr>
   \<and> InferenceScheduler_ctor 0 (- 1) \<noteq> Inl InvalidConfiguration
   \<and> run [Main 0, Main 0, Worker 0] (init_system 1 (- 1) [])
     = Some \<lparr> sched = \<lparr> num_workers = 1, batch_size = - 1, shutdown = False,
                      total_processed = 0, start_time = 0, queue = [], latencies = [] \<rparr>,
              mu = None, lat_mu = None, workers = [W_Entry], main = M_Spawn 1,
              to_submit = [], clock = 0, aborted = True, submitted = [], recorded = [] \<rparr>"
  by (simp add: InferenceScheduler_ctor_def run_eval)

text \<open>
  C5, amended: construction is never rejected. For every worker count and every batch
  size, positive or not, it succeeds with a scheduler that holds both values
  unchanged, the shutdown flag clear, the processed count at zero and no queued
  request or latency sample; it returns no error, \<open>InvalidConfiguration\<close> or other.
\<close>

theorem ctor_always_succeeds:
  "(\<exists>s. InferenceScheduler_ctor nw bs = Inr s \<and> num_workers s = nw \<and> batch_size s = bs
       \<and> \<not> shutdown s \<and> total_processed s = 0 \<and> start_time s = 0 \<and> queue s = []
       \<and> latencies s = [])
   \<and> (\<forall>e. InferenceScheduler_ctor nw bs \<noteq> Inl e)"
  by (simp add: InferenceScheduler_ctor_def new_scheduler_def)

theorem ctor_always_succeeds_witness:
  "(\<exists>s. InferenceScheduler_ctor 4 8 = Inr s \<and> num_workers s = 4 \<and> batch_size s = 8
       \<and> \<not> shutdown s \<and> total_processed s = 0 \<and> queue s = [] \<and> latencies s = [])
   \<and> InferenceScheduler_ctor 4 8 \<noteq> Inl InvalidConfiguration
   \<and> (\<exists>s. InferenceScheduler_ctor (- 3) 0 = Inr s \<and> num_workers s = - 3 \<and> batch_size s = 0)
   \<and> InferenceScheduler_ctor (- 3) 0 \<noteq> Inl InvalidConfiguration"
  using ctor_always_succeeds [of 4 8] ctor_always_succeeds [of "- 3" 0]
  by blast

section \<open>The order of service\<close>

text \<open>
  C1: a drain step on a queue takes the pending requests in non-increasing order of
  priority: the priorities of the batch are the \<open>batch_size\<close> greatest priorities of
  the queue in descending order, no request left behind has a higher priority than a
  request taken, and no request is lost or taken twice. The order \<open>operator<\<close> that
  drives the selection reads the priority and no other field. This holds of every
  queue that is a heap, as the queue is in every state a run of the scheduler reaches:
  it is one when empty, after every \<open>push\<close> and after the drain.
\<close>

theorem drain_takes_highest_priority_first:
  "(is_heap q \<longrightarrow>
      map prio (fst (drain_batch bs q)) = take (nat (sint bs)) (rev (sort (map prio q)))
      \<and> sorted (rev (map prio (fst (drain_batch bs q))))
      \<and> (\<forall>t \<in> set (fst (drain_batch bs q)). \<forall>r \<in> set (snd (drain_batch bs q)).
            prio r \<le> prio t)
      \<and> mset (fst (drain_batch bs q)) + mset (snd (drain_batch bs q)) = mset q
      \<and> is_heap (snd (drain_batch bs q))
      \<and> is_heap (pq_push q x))
   \<and> is_heap []
   \<and> (run es (init_system nw n reqs) = Some s \<longrightarrow> is_heap (queue (sched s)))
   \<and> operator_less a b = (sint (priority a) < sint (priority b))"
proof (intro conjI impI)
  assume h: "is_heap q"
  from drain_loop_props [OF h, of bs "[]"] obtain taken q' where
    d: "drain_batch bs q = (taken, q')" and m: "mset taken + mset q' = mset q"
    and hq: "is_heap q'" and s: "sorted (rev (map prio taken))"
    and dom: "\<forall>t \<in> set taken. \<forall>r \<in> set q'. prio r \<le> prio t"
    by (auto simp: drain_batch_def)
  have "length ([] :: InferenceRequest list) < 2 ^ 31" by simp
  from drain_loop_length [OF this, of bs q] d
  have l: "length taken = min (length q) (nat (sint bs))"
    by (simp add: drain_batch_def)
  have "map prio taken = take (length taken) (rev (sort (map prio q)))"
    using m s dom by (rule top_k_by_priority)
  also have "\<dots> = take (nat (sint bs)) (rev (sort (map prio q)))"
    unfolding l by (simp add: min_def)
  finally show "map prio (fst (drain_batch bs q)) = take (nat (sint bs)) (rev (sort (map prio q)))"
    using d by simp
  show "sorted (rev (map prio (fst (drain_batch bs q))))"
    using d s by simp
  show "\<forall>t \<in> set (fst (drain_batch bs q)). \<forall>r \<in> set (snd (drain_batch bs q)). prio r \<le> prio t"
    using d dom by simp
  show "mset (fst (drain_batch bs q)) + mset (snd (drain_batch bs q)) = mset q"
    using d m by simp
  show "is_heap (snd (drain_batch bs q))"
    using d hq by simp
  show "is_heap (pq_push q x)"
    using h by (rule is_heap_pq_push)
next
  assume "run es (init_system nw n reqs) = Some s"
  from reachable_invariant [OF this] show "is_heap (queue (sched s))"
    by (simp add: invariant_def inv_heap_def)
next
  show "is_heap []"
    by (simp add: is_heap_def)
  show "operator_less a b = (sint (priority a) < sint (priority b))"
    by (simp add: operator_less_def word_sless_alt)
qed

theorem drain_takes_highest_priority_first_witness:
  "pq_push (pq_push (pq_push [] (request 0 1 100 0)) (request 1 5 100 0)) (request 2 3 100 0)
     = [request 1 5 100 0, request 0 1 100 0, request 2 3 100 0]
   \<and> is_heap [request 1 5 100 0, request 0 1 100 0, request 2 3 100 0]
   \<and> drain_batch 2 [request 1 5 100 0, request 0 1 100 0, request 2 3 100 0]
     = ([request 1 5 100 0, request 2 3 100 0], [request 0 1 100 0])
   \<and> map prio (fst (drain_batch 2 [request 1 5 100 0, request 0 1 100 0, request 2 3 100 0]))
     = [5, 3]
   \<and> take (nat (sint (2 :: cint)))
        (rev (sort (map prio [request 1 5 100 0, request 0 1 100 0, request 2 3 100 0])))
     = [5, 3]"
proof -
  let ?q = "[request 1 5 100 0, request 0 1 100 0, request 2 3 100 0]"
  have b: "pq_push (pq_push (pq_push [] (request 0 1 100 0)) (request 1 5 100 0))
      (request 2 3 100 0) = ?q"
    by code_simp
  have "is_heap (pq_push (pq_push (pq_push [] (request 0 1 100 0)) (request 1 5 100 0))
      (request 2 3 100 0))"
    by (intro is_heap_pq_push) (simp add: is_heap_def)
  then have h: "is_heap ?q"
    unfolding b .
  have d: "drain_batch 2 ?q = ([request 1 5 100 0, request 2 3 100 0], [request 0 1 100 0])"
    by code_simp
  from drain_takes_highest_priority_first [where q = ?q and bs = 2] h
  have "map prio (fst (drain_batch 2 ?q)) = take (nat (sint (2 :: cint))) (rev (sort (map prio ?q)))"
    by blast
  moreover have "map prio (fst (drain_batch 2 ?q)) = [5, 3]"
    unfolding d by (simp add: prio_def)
  ultimately show ?thesis
    using b h d by (simp add: prio_def)
qed

end
